theory Spec2Isabelle
  imports Main "HOL-Library.Word" "HOL-Library.Signed_Division"
begin

section \<open>Static loop scheduling of the OpenMP runtime (kmp\_sched.cpp)\<close>

text \<open>
  The three templates of kmp\_sched.cpp are instantiated at \<open>kmp_int32\<close>, \<open>kmp_uint32\<close>,
  \<open>kmp_int64\<close> and \<open>kmp_uint64\<close>.  A value of the loop type \<open>T\<close>, of its signed
  companion \<open>ST\<close> and of its unsigned companion \<open>UT\<close> is an \<open>'a word\<close>; the flag
  \<open>sg\<close> says whether \<open>T\<close> is the signed type.  Addition, subtraction, multiplication and
  the conversions between \<open>T\<close>, \<open>ST\<close> and \<open>UT\<close> are the operations of \<open>'a word\<close>
  (two's complement, wrapping); comparison and division depend on the signedness of
  their C++ operand type.  Thread and team numbers are \<open>kmp_uint32\<close>; where the source
  mixes them with \<open>T\<close>, \<open>ST\<close> or \<open>UT\<close> they are zero-extended (\<open>ucast\<close>).
\<close>

subsection \<open>Data\<close>

type_synonym kmp_int32 = "32 word"
type_synonym kmp_uint32 = "32 word"

text \<open>The schedule kinds the solvers look at; every other value of the enumeration
  reaches the \<open>default\<close> label.\<close>

datatype sched_type =
    kmp_sch_static
  | kmp_sch_static_chunked
  | kmp_distribute_static
  | kmp_distribute_static_chunked
  | kmp_sch_other

text \<open>The global \<open>__kmp_static\<close>.\<close>

datatype static_flavor = kmp_sch_static_greedy | kmp_sch_static_balanced

text \<open>Ways in which a call does not return normally: a division whose divisor is zero,
  the fatal assertion of the \<open>default\<close> label, and the messages handed to
  \<open>__kmp_error_construct\<close>.\<close>

datatype fault =
    DivideByZero
  | UnknownSchedulingType
  | CnsLoopIncrZeroProhibited
  | CnsIterationRangeTooLarge
  | CnsLoopIncrIllegal

text \<open>The cells behind the in/out pointers.  \<open>plastiter = None\<close> is the null pointer.\<close>

record 'w loop_cells =
  plastiter :: "kmp_int32 option"
  plower :: 'w
  pupper :: 'w
  pstride :: 'w

text \<open>The two-level solver has one more cell, the upper bound of the team's chunk.\<close>

record 'w dist_cells = "'w loop_cells" +
  pupperDist :: 'w

text \<open>What the solvers read from the thread registry and from the globals: the
  consistency-check switch, the static flavour, whether the team is serialized, the
  thread number and team size, and (teams construct) the team number and the number of
  teams.\<close>

record kmp_ctx =
  env_consistency_check :: bool
  kmp_static :: static_flavor
  t_serialized :: bool
  tid :: kmp_uint32
  nth :: kmp_uint32
  team_id :: kmp_uint32
  nteams :: kmp_uint32

subsection \<open>The numeric trait layer\<close>

definition i_maxmin_mx :: "bool \<Rightarrow> 'a::len word" where
  "i_maxmin_mx sg = (if sg then 2 ^ (LENGTH('a) - 1) - 1 else - 1)"

definition i_maxmin_mn :: "bool \<Rightarrow> 'a::len word" where
  "i_maxmin_mn sg = (if sg then 2 ^ (LENGTH('a) - 1) else 0)"

text \<open>Comparison of two values of type \<open>T\<close>.\<close>

definition T_less :: "bool \<Rightarrow> 'a::len word \<Rightarrow> 'a word \<Rightarrow> bool" where
  "T_less sg a b = (if sg then a <s b else a < b)"

definition T_le :: "bool \<Rightarrow> 'a::len word \<Rightarrow> 'a word \<Rightarrow> bool" where
  "T_le sg a b = (if sg then a \<le>s b else a \<le> b)"

text \<open>C++ division: truncating on signed operands, and a fault on a zero divisor.\<close>

definition ST_div :: "'a::len word \<Rightarrow> 'a word \<Rightarrow> fault + 'a word" where
  "ST_div a b = (if b = 0 then Inl DivideByZero else Inr (word_of_int (sint a sdiv sint b)))"

definition UT_div :: "'a::len word \<Rightarrow> 'a word \<Rightarrow> fault + 'a word" where
  "UT_div a b = (if b = 0 then Inl DivideByZero else Inr (a div b))"

definition UT_mod :: "'a::len word \<Rightarrow> 'a word \<Rightarrow> fault + 'a word" where
  "UT_mod a b = (if b = 0 then Inl DivideByZero else Inr (a mod b))"

definition T_div :: "bool \<Rightarrow> 'a::len word \<Rightarrow> 'a word \<Rightarrow> fault + 'a word" where
  "T_div sg a b = (if sg then ST_div a b else UT_div a b)"

definition bindF :: "fault + 'x \<Rightarrow> ('x \<Rightarrow> fault + 'y) \<Rightarrow> fault + 'y" where
  "bindF m f = (case m of Inl e \<Rightarrow> Inl e | Inr x \<Rightarrow> f x)"

text \<open>\<open>if( plastiter != NULL ) *plastiter = b\<close>\<close>

definition set_last :: "bool \<Rightarrow> ('w, 'z) loop_cells_scheme \<Rightarrow> ('w, 'z) loop_cells_scheme" where
  "set_last b s = s\<lparr>plastiter := map_option (\<lambda>_. of_bool b) (plastiter s)\<rparr>"

subsection \<open>\<open>__kmp_for_static_init\<close>\<close>

text \<open>The zero-trip test of lines 134 (and 418, 657).\<close>

definition zero_trip :: "bool \<Rightarrow> 'a::len word \<Rightarrow> 'a word \<Rightarrow> 'a word \<Rightarrow> bool" where
  "zero_trip sg incr lower upper =
     (if 0 <s incr then T_less sg upper lower else T_less sg lower upper)"

text \<open>The stride of the serialized and of the one-thread path (lines 185, 214).\<close>

definition serial_stride :: "'a::len word \<Rightarrow> 'a word \<Rightarrow> 'a word \<Rightarrow> 'a word" where
  "serial_stride incr lower upper =
     (if 0 <s incr then upper - lower + 1 else - (lower - upper + 1))"

text \<open>Lines 239--250.\<close>

definition for_trip_count :: "bool \<Rightarrow> 'a::len word \<Rightarrow> 'a word \<Rightarrow> 'a word \<Rightarrow> fault + 'a word" where
  "for_trip_count sg incr lower upper =
     (if incr = 1 then Inr (upper - lower + 1)
      else if incr = - 1 then Inr (lower - upper + 1)
      else if 1 <s incr then bindF (T_div sg (upper - lower) incr) (\<lambda>q. Inr (q + 1))
      else bindF (T_div sg (lower - upper) (- incr)) (\<lambda>q. Inr (q + 1)))"

text \<open>The branch \<open>trip_count < nth\<close> of \<open>kmp_sch_static\<close> (lines 264--275).\<close>

definition static_fewer :: "kmp_uint32 \<Rightarrow> 'a::len word \<Rightarrow> 'a word \<Rightarrow> 'a word loop_cells \<Rightarrow> 'a word loop_cells" where
  "static_fewer t incr trip_count s =
     set_last (ucast t = trip_count - 1)
       (if ucast t < trip_count
        then s\<lparr>plower := plower s + ucast t * incr, pupper := plower s + ucast t * incr\<rparr>
        else s\<lparr>plower := pupper s + incr\<rparr>)"

text \<open>The balanced branch (lines 277--283).\<close>

definition static_balanced ::
  "kmp_uint32 \<Rightarrow> kmp_uint32 \<Rightarrow> 'a::len word \<Rightarrow> 'a word \<Rightarrow> 'a word loop_cells \<Rightarrow> fault + 'a word loop_cells" where
  "static_balanced t n incr trip_count s =
     bindF (UT_div trip_count (ucast n)) (\<lambda>small_chunk.
     bindF (UT_mod trip_count (ucast n)) (\<lambda>extras.
       let lower = plower s + incr * (ucast t * small_chunk + (if ucast t < extras then ucast t else extras));
           upper = lower + small_chunk * incr - (if ucast t < extras then 0 else incr)
       in Inr (set_last (t = n - 1) (s\<lparr>plower := lower, pupper := upper\<rparr>))))"

text \<open>The greedy branch (lines 284--307).\<close>

definition static_greedy ::
  "bool \<Rightarrow> kmp_uint32 \<Rightarrow> kmp_uint32 \<Rightarrow> 'a::len word \<Rightarrow> 'a word \<Rightarrow> 'a word loop_cells \<Rightarrow> fault + 'a word loop_cells" where
  "static_greedy sg t n incr trip_count s =
     bindF (UT_div trip_count (ucast n)) (\<lambda>q.
     bindF (UT_mod trip_count (ucast n)) (\<lambda>r.
       let big_chunk_inc_count = (q + (if r \<noteq> 0 then 1 else 0)) * incr;
           old_upper = pupper s;
           lower = plower s + ucast t * big_chunk_inc_count;
           upper = lower + big_chunk_inc_count - incr
       in if 0 <s incr then
            let upper1 = (if T_less sg upper lower then i_maxmin_mx sg else upper);
                last = (T_le sg lower old_upper \<and> T_less sg (old_upper - incr) upper1);
                upper2 = (if T_less sg old_upper upper1 then old_upper else upper1)
            in Inr (set_last last (s\<lparr>plower := lower, pupper := upper2\<rparr>))
          else
            let upper1 = (if T_less sg lower upper then i_maxmin_mn sg else upper);
                last = (T_le sg old_upper lower \<and> T_less sg upper1 (old_upper - incr));
                upper2 = (if T_less sg upper1 old_upper then old_upper else upper1)
            in Inr (set_last last (s\<lparr>plower := lower, pupper := upper2\<rparr>))))"

text \<open>The chunked branch (lines 311--324).\<close>

definition static_chunked ::
  "kmp_uint32 \<Rightarrow> kmp_uint32 \<Rightarrow> 'a::len word \<Rightarrow> 'a word \<Rightarrow> 'a word \<Rightarrow> 'a word loop_cells \<Rightarrow> fault + 'a word loop_cells" where
  "static_chunked t n incr chunk0 trip_count s =
     (let chunk = (if chunk0 <s 1 then 1 else chunk0);
          span = chunk * incr;
          lower = plower s + span * ucast t;
          upper = lower + span - incr
      in bindF (UT_div (trip_count - 1) chunk) (\<lambda>q.
         bindF (UT_mod q (ucast n)) (\<lambda>r.
           Inr (set_last (ucast t = r)
                  (s\<lparr>plower := lower, pupper := upper, pstride := span * ucast n\<rparr>)))))"

text \<open>
  The whole routine.  \<open>schedtype\<close> of a distribute construct is first converted to the
  usual kind (lines 167--172); the thread number and the team are those the registry
  gives for the construct, here \<open>tid c\<close>, \<open>nth c\<close> and \<open>t_serialized c\<close>.
  \<open>__kmp_push_workshare\<close>, the tracing and the instrumentation calls do not touch the
  cells and are left out.

  Modelled from the spec: \<open>__kmp_error_construct\<close> (kmp\_error.cpp) is the external
  consistency-check collaborator; a report ends the call with the message reported.
\<close>

definition kmp_for_static_init ::
  "bool \<Rightarrow> kmp_ctx \<Rightarrow> sched_type \<Rightarrow> 'a::len word \<Rightarrow> 'a word \<Rightarrow> 'a word loop_cells \<Rightarrow> fault + 'a word loop_cells" where
  "kmp_for_static_init sg c schedtype incr chunk s =
     (if env_consistency_check c \<and> incr = 0 then Inl CnsLoopIncrZeroProhibited
      else if zero_trip sg incr (plower s) (pupper s)
        then Inr (set_last False s\<lparr>pstride := incr\<rparr>)
      else if t_serialized c
        then Inr (set_last True s\<lparr>pstride := serial_stride incr (plower s) (pupper s)\<rparr>)
      else if nth c = 1
        then Inr (set_last True s\<lparr>pstride := serial_stride incr (plower s) (pupper s)\<rparr>)
      else
        bindF (for_trip_count sg incr (plower s) (pupper s)) (\<lambda>trip_count.
          if env_consistency_check c \<and> trip_count = 0 \<and> pupper s \<noteq> plower s
          then Inl CnsIterationRangeTooLarge
          else
            (case (case schedtype of kmp_distribute_static \<Rightarrow> kmp_sch_static
                     | kmp_distribute_static_chunked \<Rightarrow> kmp_sch_static_chunked
                     | k \<Rightarrow> k) of
               kmp_sch_static \<Rightarrow>
                 if trip_count < ucast (nth c)
                 then Inr (static_fewer (tid c) incr trip_count s)
                 else if kmp_static c = kmp_sch_static_balanced
                   then static_balanced (tid c) (nth c) incr trip_count s
                   else static_greedy sg (tid c) (nth c) incr trip_count s
             | kmp_sch_static_chunked \<Rightarrow>
                 static_chunked (tid c) (nth c) incr chunk trip_count s
             | _ \<Rightarrow> Inl UnknownSchedulingType)))"

subsection \<open>\<open>__kmp_dist_for_static_init\<close>\<close>

text \<open>\<open>if( plastiter != NULL ) if( *plastiter != 0 && !b ) *plastiter = 0\<close>\<close>

definition and_last :: "bool \<Rightarrow> ('w, 'z) loop_cells_scheme \<Rightarrow> ('w, 'z) loop_cells_scheme" where
  "and_last b s =
     s\<lparr>plastiter := map_option (\<lambda>v. if v \<noteq> 0 \<and> \<not> b then 0 else v) (plastiter s)\<rparr>"

text \<open>Lines 443--449, 510--516 and 680--686: the trip count with the cast to \<open>ST\<close>.\<close>

definition dist_trip_count :: "'a::len word \<Rightarrow> 'a word \<Rightarrow> 'a word \<Rightarrow> fault + 'a word" where
  "dist_trip_count incr lower upper =
     (if incr = 1 then Inr (upper - lower + 1)
      else if incr = - 1 then Inr (lower - upper + 1)
      else bindF (ST_div (upper - lower) incr) (\<lambda>q. Inr (q + 1)))"

text \<open>The team level (lines 451--507).  The boolean of the result is true when the
  team has no iterations and control jumps to \<open>end\<close>.\<close>

definition dist_team_level ::
  "bool \<Rightarrow> kmp_ctx \<Rightarrow> 'a::len word \<Rightarrow> 'a word \<Rightarrow> 'a word dist_cells \<Rightarrow> fault + (bool \<times> 'a word dist_cells)" where
  "dist_team_level sg c incr trip_count s =
     (if kmp_static c = kmp_sch_static_balanced then
        bindF (UT_div trip_count (ucast (nteams c))) (\<lambda>chunkD.
        bindF (UT_mod trip_count (ucast (nteams c))) (\<lambda>extras.
          let lower = plower s + incr * (ucast (team_id c) * chunkD
                        + (if ucast (team_id c) < extras then ucast (team_id c) else extras));
              upperDist = lower + chunkD * incr - (if ucast (team_id c) < extras then 0 else incr)
          in Inr (False, set_last (team_id c = nteams c - 1)
                           (s\<lparr>plower := lower, pupperDist := upperDist\<rparr>))))
      else
        bindF (UT_div trip_count (ucast (nteams c))) (\<lambda>q.
        bindF (UT_mod trip_count (ucast (nteams c))) (\<lambda>r.
          let chunk_inc_count = (q + (if r \<noteq> 0 then 1 else 0)) * incr;
              upper = pupper s;
              lower = plower s + ucast (team_id c) * chunk_inc_count;
              upperDist = lower + chunk_inc_count - incr
          in if 0 <s incr then
               let upperDist1 = (if T_less sg upperDist lower then i_maxmin_mx sg else upperDist);
                   last = (T_le sg lower upper \<and> T_less sg (upper - incr) upperDist1);
                   upperDist2 = (if T_less sg upper upperDist1 then upper else upperDist1);
                   s1 = set_last last (s\<lparr>plower := lower, pupperDist := upperDist2\<rparr>)
               in if T_less sg upperDist2 lower
                  then Inr (True, s1\<lparr>pupper := upperDist2\<rparr>)
                  else Inr (False, s1)
             else
               let upperDist1 = (if T_less sg lower upperDist then i_maxmin_mn sg else upperDist);
                   last = (T_le sg upper lower \<and> T_less sg upperDist1 (upper - incr));
                   upperDist2 = (if T_less sg upperDist1 upper then upper else upperDist1);
                   s1 = set_last last (s\<lparr>plower := lower, pupperDist := upperDist2\<rparr>)
               in if T_less sg lower upperDist2
                  then Inr (True, s1\<lparr>pupper := upperDist2\<rparr>)
                  else Inr (False, s1))))"

text \<open>The thread level (lines 508--588), on the cells the team level left.\<close>

definition dist_thread_level ::
  "bool \<Rightarrow> kmp_ctx \<Rightarrow> sched_type \<Rightarrow> 'a::len word \<Rightarrow> 'a word \<Rightarrow> 'a word dist_cells \<Rightarrow> fault + 'a word dist_cells" where
  "dist_thread_level sg c schedule incr chunk0 s =
     bindF (dist_trip_count incr (plower s) (pupperDist s)) (\<lambda>trip_count.
       case schedule of
         kmp_sch_static \<Rightarrow>
           if trip_count \<le> ucast (nth c) then
             Inr (and_last (ucast (tid c) = trip_count - 1)
                    (if ucast (tid c) < trip_count
                     then s\<lparr>plower := plower s + ucast (tid c) * incr,
                            pupper := plower s + ucast (tid c) * incr\<rparr>
                     else s\<lparr>plower := pupper s + incr\<rparr>))
           else if kmp_static c = kmp_sch_static_balanced then
             bindF (UT_div trip_count (ucast (nth c))) (\<lambda>chunkL.
             bindF (UT_mod trip_count (ucast (nth c))) (\<lambda>extras.
               let lower = plower s + incr * (ucast (tid c) * chunkL
                             + (if ucast (tid c) < extras then ucast (tid c) else extras));
                   upper = lower + chunkL * incr - (if ucast (tid c) < extras then 0 else incr)
               in Inr (and_last (tid c = nth c - 1) (s\<lparr>plower := lower, pupper := upper\<rparr>))))
           else
             bindF (UT_div trip_count (ucast (nth c))) (\<lambda>q.
             bindF (UT_mod trip_count (ucast (nth c))) (\<lambda>r.
               let chunk_inc_count = (q + (if r \<noteq> 0 then 1 else 0)) * incr;
                   upper = pupperDist s;
                   lower = plower s + ucast (tid c) * chunk_inc_count;
                   upper0 = lower + chunk_inc_count - incr
               in if 0 <s incr then
                    let upper1 = (if T_less sg upper0 lower then i_maxmin_mx sg else upper0);
                        last = (T_le sg lower upper \<and> T_less sg (upper - incr) upper1);
                        upper2 = (if T_less sg upper upper1 then upper else upper1)
                    in Inr (and_last last (s\<lparr>plower := lower, pupper := upper2\<rparr>))
                  else
                    let upper1 = (if T_less sg lower upper0 then i_maxmin_mn sg else upper0);
                        last = (T_le sg upper lower \<and> T_less sg upper1 (upper - incr));
                        upper2 = (if T_less sg upper1 upper then upper else upper1)
                    in Inr (and_last last (s\<lparr>plower := lower, pupper := upper2\<rparr>))))
       | kmp_sch_static_chunked \<Rightarrow>
           (let chunk = (if chunk0 <s 1 then 1 else chunk0);
                span = chunk * incr;
                lower = plower s + span * ucast (tid c);
                upper = lower + span - incr
            in bindF (UT_div (trip_count - 1) chunk) (\<lambda>q.
               bindF (UT_mod q (ucast (nth c))) (\<lambda>r.
                 Inr (and_last (ucast (tid c) = r)
                        (s\<lparr>plower := lower, pupper := upper, pstride := span * ucast (nth c)\<rparr>)))))
       | _ \<Rightarrow> Inl UnknownSchedulingType)"

text \<open>The whole routine (lines 413--590).\<close>

definition kmp_dist_for_static_init ::
  "bool \<Rightarrow> kmp_ctx \<Rightarrow> sched_type \<Rightarrow> 'a::len word \<Rightarrow> 'a word \<Rightarrow> 'a word dist_cells \<Rightarrow> fault + 'a word dist_cells" where
  "kmp_dist_for_static_init sg c schedule incr chunk s =
     (if env_consistency_check c \<and> incr = 0 then Inl CnsLoopIncrZeroProhibited
      else if env_consistency_check c \<and> zero_trip sg incr (plower s) (pupper s)
        then Inl CnsLoopIncrIllegal
      else
        bindF (dist_trip_count incr (plower s) (pupper s)) (\<lambda>trip_count.
          let s0 = s\<lparr>pstride := pupper s - plower s\<rparr> in
          if trip_count \<le> ucast (nteams c) then
            Inr (set_last (tid c = 0 \<and> ucast (team_id c) = trip_count - 1)
                   (if ucast (team_id c) < trip_count \<and> tid c = 0
                    then s0\<lparr>plower := plower s + ucast (team_id c) * incr,
                            pupper := plower s + ucast (team_id c) * incr,
                            pupperDist := plower s + ucast (team_id c) * incr\<rparr>
                    else s0\<lparr>pupperDist := pupper s, plower := pupper s + incr\<rparr>))
          else
            bindF (dist_team_level sg c incr trip_count s0) (\<lambda>(done, s1).
              if done then Inr s1 else dist_thread_level sg c schedule incr chunk s1)))"

subsection \<open>\<open>__kmp_team_static_init\<close>\<close>

definition kmp_team_static_init ::
  "bool \<Rightarrow> kmp_ctx \<Rightarrow> 'a::len word \<Rightarrow> 'a word \<Rightarrow> 'a word loop_cells \<Rightarrow> fault + 'a word loop_cells" where
  "kmp_team_static_init sg c incr chunk0 s =
     (let lower = plower s; upper = pupper s in
      if env_consistency_check c \<and> incr = 0 then Inl CnsLoopIncrZeroProhibited
      else if env_consistency_check c \<and> zero_trip sg incr lower upper
        then Inl CnsLoopIncrIllegal
      else
        bindF (dist_trip_count incr lower upper) (\<lambda>trip_count.
          let chunk = (if chunk0 <s 1 then 1 else chunk0);
              span = chunk * incr;
              p_lb = lower + span * ucast (team_id c);
              p_ub = p_lb + span - incr
          in bindF (UT_div (trip_count - 1) chunk) (\<lambda>q.
             bindF (UT_mod q (ucast (nteams c))) (\<lambda>r.
               let s1 = set_last (ucast (team_id c) = r)
                          (s\<lparr>pstride := span * ucast (nteams c), plower := p_lb\<rparr>)
               in if 0 <s incr then
                    let p_ub1 = (if T_less sg p_ub p_lb then i_maxmin_mx sg else p_ub);
                        p_ub2 = (if T_less sg upper p_ub1 then upper else p_ub1)
                    in Inr (s1\<lparr>pupper := p_ub2\<rparr>)
                  else
                    let p_ub1 = (if T_less sg p_lb p_ub then i_maxmin_mn sg else p_ub);
                        p_ub2 = (if T_less sg p_ub1 upper then upper else p_ub1)
                    in Inr (s1\<lparr>pupper := p_ub2\<rparr>)))))"

subsection \<open>Integer readings\<close>

text \<open>The mathematical value of a word of type \<open>T\<close>.\<close>

definition val :: "bool \<Rightarrow> 'a::len word \<Rightarrow> int" where
  "val sg w = (if sg then sint w else uint w)"

text \<open>\<open>trip_count / nth + ((trip_count % nth) ? 1 : 0)\<close> (lines 285, 341, 477, 544), in integers.\<close>

definition ceil_div :: "int \<Rightarrow> int \<Rightarrow> int" where
  "ceil_div a b = a div b + (if a mod b \<noteq> 0 then 1 else 0)"

text \<open>
  The values the loop variable takes in \<open>for (i = lower; i <= upper; i += incr)\<close>
  (\<open>i >= upper\<close> for a negative increment), as integers; and the values thread \<open>t\<close> is
  given by \<open>__kmp_for_static_init\<close>.
\<close>

definition iterations :: "bool \<Rightarrow> 'a::len word \<Rightarrow> 'a word \<Rightarrow> 'a word \<Rightarrow> int set" where
  "iterations sg incr lower upper =
     (if 0 <s incr
      then (\<lambda>k. val sg lower + k * sint incr) `
             {0 .. (val sg upper - val sg lower) div sint incr}
      else if incr <s 0
      then (\<lambda>k. val sg lower + k * sint incr) `
             {0 .. (val sg lower - val sg upper) div (- sint incr)}
      else {})"

definition assigned ::
  "bool \<Rightarrow> kmp_ctx \<Rightarrow> sched_type \<Rightarrow> 'a::len word \<Rightarrow> 'a word \<Rightarrow> 'a word loop_cells
     \<Rightarrow> kmp_uint32 \<Rightarrow> int set" where
  "assigned sg c schedtype incr chunk s t =
     (case kmp_for_static_init sg (c\<lparr>tid := t\<rparr>) schedtype incr chunk s of
        Inl _ \<Rightarrow> {}
      | Inr s' \<Rightarrow> iterations sg incr (plower s') (pupper s'))"

text \<open>
  A legal, non-empty loop: the bounds are in the order of the increment, and the
  computations \<open>upper - lower\<close> (\<open>lower - upper\<close>) in a signed \<open>T\<close> and \<open>-incr\<close> in \<open>ST\<close>
  do not overflow.  Its trip count is the number of its iterations.
\<close>

definition legal :: "bool \<Rightarrow> 'a::len word \<Rightarrow> 'a word \<Rightarrow> 'a word \<Rightarrow> bool" where
  "legal sg incr lower upper \<longleftrightarrow>
     (if 0 <s incr
      then val sg lower \<le> val sg upper
           \<and> (sg \<longrightarrow> val sg upper - val sg lower < 2 ^ (LENGTH('a) - 1))
      else incr <s 0 \<and> 0 <s - incr \<and> val sg upper \<le> val sg lower
           \<and> (sg \<longrightarrow> val sg lower - val sg upper < 2 ^ (LENGTH('a) - 1)))"

definition trip_of :: "bool \<Rightarrow> 'a::len word \<Rightarrow> 'a word \<Rightarrow> 'a word \<Rightarrow> int" where
  "trip_of sg incr lower upper =
     (if 0 <s incr then (val sg upper - val sg lower) div sint incr + 1
      else (val sg lower - val sg upper) div (- sint incr) + 1)"

text \<open>
  The flag a thread is left with by \<open>__kmp_for_static_init\<close>: true when the call returns
  with \<open>*plastiter\<close> equal to 1.
\<close>

definition last_flag ::
  "bool \<Rightarrow> kmp_ctx \<Rightarrow> sched_type \<Rightarrow> 'a::len word \<Rightarrow> 'a word \<Rightarrow> 'a word loop_cells
     \<Rightarrow> kmp_uint32 \<Rightarrow> bool" where
  "last_flag sg c schedtype incr chunk s t =
     (case kmp_for_static_init sg (c\<lparr>tid := t\<rparr>) schedtype incr chunk s of
        Inl _ \<Rightarrow> False
      | Inr s' \<Rightarrow> plastiter s' = Some 1)"

text \<open>
  A loop whose span \<open>|upper - lower|\<close> is below \<open>2\<^sup>w\<^sup>-\<^sup>1\<close>: the cast \<open>(ST)(upper - lower)\<close> of
  lines 448, 515 and 685 then keeps the value of the difference.
\<close>

definition span_fits :: "bool \<Rightarrow> 'a::len word \<Rightarrow> 'a word \<Rightarrow> bool" where
  "span_fits sg lower upper \<longleftrightarrow> \<bar>val sg upper - val sg lower\<bar> < 2 ^ (LENGTH('a) - 1)"

text \<open>
  The difference \<open>upper - lower\<close> is a value of the signed type \<open>ST\<close>: exactly then the cast
  \<open>(ST)(upper - lower)\<close> of lines 448, 515 and 685 keeps the value of the difference.
\<close>

definition cast_exact :: "bool \<Rightarrow> 'a::len word \<Rightarrow> 'a word \<Rightarrow> bool" where
  "cast_exact sg lower upper \<longleftrightarrow>
     - (2 ^ (LENGTH('a) - 1)) \<le> val sg upper - val sg lower
     \<and> val sg upper - val sg lower < 2 ^ (LENGTH('a) - 1)"

text \<open>
  The condition the thread level of \<open>__kmp_dist_for_static_init\<close> tests before it clears
  the flag (lines 531, 540, 554, 562 and 581), for the local trip count \<open>trip_count\<close>
  of lines 510--516.
\<close>

definition thread_cond ::
  "bool \<Rightarrow> kmp_ctx \<Rightarrow> sched_type \<Rightarrow> 'a::len word \<Rightarrow> 'a word \<Rightarrow> 'a word dist_cells \<Rightarrow> 'a word \<Rightarrow> bool" where
  "thread_cond sg c schedule incr chunk0 d trip_count =
     (if schedule = kmp_sch_static then
        if trip_count \<le> ucast (nth c) then ucast (tid c) = trip_count - 1
        else if kmp_static c = kmp_sch_static_balanced then tid c = nth c - 1
        else
          let chunk_inc_count = (trip_count div ucast (nth c)
                                   + (if trip_count mod ucast (nth c) \<noteq> 0 then 1 else 0)) * incr;
              upper = pupperDist d;
              lower = plower d + ucast (tid c) * chunk_inc_count;
              upper0 = lower + chunk_inc_count - incr
          in if 0 <s incr
             then T_le sg lower upper
                  \<and> T_less sg (upper - incr)
                       (if T_less sg upper0 lower then i_maxmin_mx sg else upper0)
             else T_le sg upper lower
                  \<and> T_less sg (if T_less sg lower upper0 then i_maxmin_mn sg else upper0)
                       (upper - incr)
      else ucast (tid c) = ((trip_count - 1) div (if chunk0 <s 1 then 1 else chunk0))
                             mod ucast (nth c))"




subsection \<open>Contexts and cells of the worked examples\<close>

definition ctx0 :: kmp_ctx where
  "ctx0 = \<lparr>env_consistency_check = True, kmp_static = kmp_sch_static_greedy,
            t_serialized = False, tid = 0, nth = 1, team_id = 0, nteams = 1\<rparr>"

definition cells0 :: "'a::len word \<Rightarrow> 'a word \<Rightarrow> 'a word loop_cells" where
  "cells0 lower upper = \<lparr>plastiter = Some 0, plower = lower, pupper = upper, pstride = 0\<rparr>"

section \<open>Properties\<close>

subsection \<open>Signed comparison with zero\<close>

lemma sless_zero_neq: "0 <s (i::'a::len word) \<Longrightarrow> i \<noteq> 0"
  by (auto simp: word_sless_alt)

lemma sless_asym0: "(i::'a::len word) <s 0 \<Longrightarrow> \<not> 0 <s i"
  by (auto simp: word_sless_alt)

lemma sless_neg_neq: "(i::'a::len word) <s 0 \<Longrightarrow> i \<noteq> 0"
  by (auto simp: word_sless_alt)

subsection \<open>Zero-trip loops\<close>

text \<open>
  C5.  When the iteration space is empty (the upper bound below the lower one with a
  positive increment, or the lower bound below the upper one with a negative increment),
  \<open>__kmp_for_static_init\<close> returns normally, whatever the schedule, the thread number,
  the team size and the consistency switch are: the bounds are unchanged, the stride is
  the increment, and the last-iteration flag (when the pointer is not null) is FALSE.
\<close>

theorem zero_trip_is_success:
  assumes "(0 <s incr \<and> T_less sg (pupper s) (plower s))
         \<or> (incr <s 0 \<and> T_less sg (plower s) (pupper s))"
  shows "kmp_for_static_init sg c schedtype incr chunk s
           = Inr (s\<lparr>plastiter := map_option (\<lambda>_. 0) (plastiter s), pstride := incr\<rparr>)"
  using assms
  by (auto simp: kmp_for_static_init_def zero_trip_def set_last_def
           dest: sless_zero_neq sless_asym0 sless_neg_neq)

theorem zero_trip_is_success_witness:
  "T_less True (2 :: 32 word) 5 \<and>
   kmp_for_static_init True
      \<lparr>env_consistency_check = True, kmp_static = kmp_sch_static_greedy, t_serialized = False,
       tid = 1, nth = 4, team_id = 0, nteams = 1\<rparr> kmp_sch_static (1 :: 32 word) 0
      \<lparr>plastiter = Some 1, plower = 5, pupper = 2, pstride = 77\<rparr>
    = Inr \<lparr>plastiter = Some 0, plower = 5, pupper = 2, pstride = 1\<rparr>"
  using zero_trip_is_success [of "1 :: 32 word" True
      "\<lparr>plastiter = Some 1, plower = 5, pupper = 2, pstride = 77\<rparr>"
      "\<lparr>env_consistency_check = True, kmp_static = kmp_sch_static_greedy, t_serialized = False,
       tid = 1, nth = 4, team_id = 0, nteams = 1\<rparr>" kmp_sch_static 0]
  by (simp add: T_less_def word_sless_alt)

subsection \<open>Divisors\<close>

lemma uint_ucast_kmp_uint32:
  fixes n :: kmp_uint32
  assumes "32 \<le> LENGTH('a::len)"
  shows "uint (ucast n :: 'a word) = uint n"
  by (rule uint_up_ucast) (simp add: is_up assms)

lemma ucast_kmp_uint32_eq_0:
  fixes n :: kmp_uint32
  assumes "32 \<le> LENGTH('a::len)"
  shows "(ucast n :: 'a word) = 0 \<longleftrightarrow> n = 0"
  using uint_ucast_kmp_uint32 [OF assms, of n] by (metis uint_0_iff)

lemma chunk_clamp_neq_0:
  fixes chunk :: "'a::len word"
  assumes "32 \<le> LENGTH('a)"
  shows "(if chunk <s 1 then 1 else chunk) \<noteq> 0"
proof -
  have "sint (1 :: 'a word) = 1"
    using assms by (simp add: signed_1)
  then show ?thesis
    by (auto simp: word_sless_alt)
qed

lemma bindF_neq_fault:
  assumes "m \<noteq> Inl e" and "\<And>x. f x \<noteq> Inl e"
  shows "bindF m f \<noteq> Inl e"
  using assms by (cases m) (auto simp: bindF_def)

lemma if_neq_fault:
  assumes "c \<Longrightarrow> a \<noteq> Inl e" and "\<not> c \<Longrightarrow> b \<noteq> Inl e"
  shows "(if c then a else b) \<noteq> Inl e"
  using assms by simp

lemma case_prod_neq_fault:
  assumes "\<And>x y. f x y \<noteq> Inl e"
  shows "(case p of (x, y) \<Rightarrow> f x y) \<noteq> Inl e"
  using assms by (cases p) simp

lemma case_sched_neq_fault:
  assumes "a \<noteq> Inl e" "b \<noteq> Inl e" "c \<noteq> Inl e" "d \<noteq> Inl e" "z \<noteq> Inl e"
  shows "(case k of kmp_sch_static \<Rightarrow> a | kmp_sch_static_chunked \<Rightarrow> b
            | kmp_distribute_static \<Rightarrow> c | kmp_distribute_static_chunked \<Rightarrow> d
            | kmp_sch_other \<Rightarrow> z) \<noteq> Inl e"
  using assms by (cases k) simp_all

lemma Inr_neq_fault: "Inr x \<noteq> Inl e"
  by simp

lemma UT_div_ok: "b \<noteq> 0 \<Longrightarrow> UT_div a b \<noteq> Inl DivideByZero"
  by (simp add: UT_div_def)

lemma UT_mod_ok: "b \<noteq> 0 \<Longrightarrow> UT_mod a b \<noteq> Inl DivideByZero"
  by (simp add: UT_mod_def)

lemma ST_div_ok: "b \<noteq> 0 \<Longrightarrow> ST_div a b \<noteq> Inl DivideByZero"
  by (simp add: ST_div_def)

lemma T_div_ok: "b \<noteq> 0 \<Longrightarrow> T_div sg a b \<noteq> Inl DivideByZero"
  by (simp add: T_div_def ST_div_ok UT_div_ok)

lemmas div0_intros = bindF_neq_fault if_neq_fault case_prod_neq_fault case_sched_neq_fault
  Inr_neq_fault
  UT_div_ok UT_mod_ok ST_div_ok T_div_ok

lemma for_trip_count_ok: "incr \<noteq> 0 \<Longrightarrow> for_trip_count sg incr lower upper \<noteq> Inl DivideByZero"
  unfolding for_trip_count_def by (intro div0_intros) simp_all

lemma dist_trip_count_ok: "incr \<noteq> 0 \<Longrightarrow> dist_trip_count incr lower upper \<noteq> Inl DivideByZero"
  unfolding dist_trip_count_def by (intro div0_intros) simp_all

lemma static_balanced_ok:
  "(ucast n :: 'a::len word) \<noteq> 0 \<Longrightarrow> static_balanced t n incr (tc :: 'a word) s \<noteq> Inl DivideByZero"
  unfolding static_balanced_def Let_def by (intro div0_intros) simp_all

lemma static_greedy_ok:
  "(ucast n :: 'a::len word) \<noteq> 0 \<Longrightarrow> static_greedy sg t n incr (tc :: 'a word) s \<noteq> Inl DivideByZero"
  unfolding static_greedy_def Let_def by (intro div0_intros) simp_all

lemma static_chunked_ok:
  "32 \<le> LENGTH('a) \<Longrightarrow> (ucast n :: 'a::len word) \<noteq> 0
    \<Longrightarrow> static_chunked t n incr chunk (tc :: 'a word) s \<noteq> Inl DivideByZero"
  unfolding static_chunked_def Let_def by (intro div0_intros chunk_clamp_neq_0) simp_all

lemma for_static_init_ok:
  fixes incr :: "'a::len word"
  assumes "32 \<le> LENGTH('a)" "incr \<noteq> 0" "nth c \<noteq> 0"
  shows "kmp_for_static_init sg c schedtype incr chunk s \<noteq> Inl DivideByZero"
proof -
  have n: "(ucast (nth c) :: 'a word) \<noteq> 0"
    using assms by (simp add: ucast_kmp_uint32_eq_0)
  show ?thesis
    unfolding kmp_for_static_init_def
    by (intro div0_intros for_trip_count_ok static_balanced_ok static_greedy_ok
          static_chunked_ok n assms(1,2)) simp_all
qed

lemma dist_team_level_ok:
  "(ucast (nteams c) :: 'a::len word) \<noteq> 0 \<Longrightarrow> dist_team_level sg c incr (tc :: 'a word) s \<noteq> Inl DivideByZero"
  unfolding dist_team_level_def Let_def by (intro div0_intros) simp_all

lemma dist_thread_level_ok:
  fixes incr :: "'a::len word"
  assumes "(ucast (nth c) :: 'a::len word) \<noteq> 0" "incr \<noteq> 0" "32 \<le> LENGTH('a)"
  shows "dist_thread_level sg c schedule incr chunk s \<noteq> Inl DivideByZero"
  unfolding dist_thread_level_def Let_def
  by (intro div0_intros dist_trip_count_ok chunk_clamp_neq_0 assms) simp_all

lemma dist_for_static_init_ok:
  fixes incr :: "'a::len word"
  assumes "32 \<le> LENGTH('a)" "incr \<noteq> 0" "nth c \<noteq> 0" "nteams c \<noteq> 0"
  shows "kmp_dist_for_static_init sg c schedule incr chunk s \<noteq> Inl DivideByZero"
proof -
  have n: "(ucast (nth c) :: 'a word) \<noteq> 0" "(ucast (nteams c) :: 'a word) \<noteq> 0"
    using assms by (simp_all add: ucast_kmp_uint32_eq_0)
  show ?thesis
    unfolding kmp_dist_for_static_init_def Let_def
    by (intro div0_intros dist_trip_count_ok dist_team_level_ok dist_thread_level_ok n assms(1,2))
       simp_all
qed

lemma team_static_init_ok:
  fixes incr :: "'a::len word"
  assumes "32 \<le> LENGTH('a)" "incr \<noteq> 0" "nteams c \<noteq> 0"
  shows "kmp_team_static_init sg c incr chunk s \<noteq> Inl DivideByZero"
proof -
  have n: "(ucast (nteams c) :: 'a word) \<noteq> 0"
    using assms by (simp_all add: ucast_kmp_uint32_eq_0)
  show ?thesis
    unfolding kmp_team_static_init_def Let_def
    by (intro div0_intros dist_trip_count_ok chunk_clamp_neq_0 n assms(1,2)) simp_all
qed

text \<open>
  C10.  With a nonzero increment and thread and team counts of at least one, no division
  or modulus of the three solvers meets a zero divisor: every division of the model
  faults on a zero divisor, and no call ends in that fault.  (The trip count is divided
  by the increment only when the increment is neither 1 nor -1; the counts are the
  caller's; a chunk is a divisor only after it was raised to at least 1.)
\<close>

theorem divisors_nonzero:
  fixes incr chunk :: "'a::len word"
  assumes "32 \<le> LENGTH('a)" "incr \<noteq> 0" "nth c \<noteq> 0" "nteams c \<noteq> 0"
  shows "kmp_for_static_init sg c schedtype incr chunk s \<noteq> Inl DivideByZero
       \<and> kmp_dist_for_static_init sg c schedtype incr chunk d \<noteq> Inl DivideByZero
       \<and> kmp_team_static_init sg c incr chunk s \<noteq> Inl DivideByZero"
  using assms by (simp add: for_static_init_ok dist_for_static_init_ok team_static_init_ok)

theorem divisors_nonzero_witness:
  "32 \<le> LENGTH(32) \<and> (3 :: 32 word) \<noteq> 0 \<and> nth (ctx0\<lparr>nth := 4, nteams := 2\<rparr>) \<noteq> 0
   \<and> nteams (ctx0\<lparr>nth := 4, nteams := 2\<rparr>) \<noteq> 0
   \<and> kmp_for_static_init False (ctx0\<lparr>nth := 4, nteams := 2\<rparr>) kmp_sch_static_chunked
         (3 :: 32 word) 0 (cells0 0 100) \<noteq> Inl DivideByZero
   \<and> kmp_dist_for_static_init False (ctx0\<lparr>nth := 4, nteams := 2\<rparr>) kmp_sch_static_chunked
         (3 :: 32 word) 0 (loop_cells.extend (cells0 0 100) (dist_cells.fields 0))
         \<noteq> Inl DivideByZero
   \<and> kmp_team_static_init False (ctx0\<lparr>nth := 4, nteams := 2\<rparr>) (3 :: 32 word) 0 (cells0 0 100)
         \<noteq> Inl DivideByZero"
  using divisors_nonzero [of "3 :: 32 word" "ctx0\<lparr>nth := 4, nteams := 2\<rparr>" False
      kmp_sch_static_chunked 0 "cells0 0 100"
      "loop_cells.extend (cells0 0 100) (dist_cells.fields 0)"]
  by (simp add: ctx0_def)

text \<open>The hypotheses are needed: a zero increment, or a team of no threads, ends the
  single-level solver in a division by zero.\<close>

lemma zero_increment_divides:
  "kmp_for_static_init False (ctx0\<lparr>env_consistency_check := False, nth := 4\<rparr>) kmp_sch_static
       (0 :: 32 word) 0 (cells0 0 0)
     = Inl DivideByZero"
  by (simp add: kmp_for_static_init_def ctx0_def cells0_def zero_trip_def T_less_def
        for_trip_count_def T_div_def UT_div_def bindF_def)

lemma zero_threads_divides:
  "kmp_for_static_init False (ctx0\<lparr>nth := 0\<rparr>) kmp_sch_static (1 :: 32 word) 0 (cells0 0 9)
     = Inl DivideByZero"
  by (simp add: kmp_for_static_init_def ctx0_def cells0_def zero_trip_def T_less_def
        for_trip_count_def static_greedy_def UT_div_def bindF_def word_sless_alt)

subsection \<open>The chunked schedule\<close>

lemma for_static_init_chunked:
  fixes incr chunk :: "'a::len word"
  assumes len: "32 \<le> LENGTH('a)"
    and incr: "incr \<noteq> 0"
    and nz: "\<not> zero_trip sg incr (plower s) (pupper s)"
    and par: "\<not> t_serialized c" "1 < nth c"
    and sched: "schedtype = kmp_sch_static_chunked \<or> schedtype = kmp_distribute_static_chunked"
    and tc: "for_trip_count sg incr (plower s) (pupper s) = Inr trip_count"
    and chk: "\<not> (env_consistency_check c \<and> trip_count = 0 \<and> pupper s \<noteq> plower s)"
  shows "kmp_for_static_init sg c schedtype incr chunk s =
           (let chunk' = (if chunk <s 1 then 1 else chunk);
                span = chunk' * incr;
                lower_i = plower s + span * ucast (tid c)
            in Inr \<lparr>plastiter = map_option (\<lambda>_. of_bool
                        (ucast (tid c) = ((trip_count - 1) div chunk') mod ucast (nth c)))
                        (plastiter s),
                     plower = lower_i,
                     pupper = lower_i + span - incr,
                     pstride = span * ucast (nth c)\<rparr>)"
proof -
  have n: "(ucast (nth c) :: 'a word) \<noteq> 0" "nth c \<noteq> 1"
    using par len by (auto simp: ucast_kmp_uint32_eq_0)
  have ch: "(if chunk <s 1 then 1 else chunk) \<noteq> 0"
    by (rule chunk_clamp_neq_0 [OF len])
  have "static_chunked (tid c) (nth c) incr chunk trip_count s =
          (let chunk' = (if chunk <s 1 then 1 else chunk);
                span = chunk' * incr;
                lower_i = plower s + span * ucast (tid c)
            in Inr \<lparr>plastiter = map_option (\<lambda>_. of_bool
                        (ucast (tid c) = ((trip_count - 1) div chunk') mod ucast (nth c)))
                        (plastiter s),
                     plower = lower_i,
                     pupper = lower_i + span - incr,
                     pstride = span * ucast (nth c)\<rparr>)"
    using n ch unfolding static_chunked_def Let_def
    by (simp add: UT_div_def UT_mod_def bindF_def set_last_def)
  moreover have "kmp_for_static_init sg c schedtype incr chunk s
                   = static_chunked (tid c) (nth c) incr chunk trip_count s"
    using incr nz par n sched tc chk unfolding kmp_for_static_init_def
    by (auto simp: bindF_def)
  ultimately show ?thesis by simp
qed

text \<open>
  C9.  In the general case of the chunked schedule (a non-empty space, a team of more
  than one thread that is not serialized, a nonzero increment, no report of the
  consistency check) the upper bound the routine returns is
  \<open>lower_i + chunk' * incr - incr\<close> as computed, with \<open>chunk' = max(chunk, 1)\<close> and
  \<open>lower_i\<close> the lower bound returned: it is compared neither with the upper bound of
  the loop nor with a limit of the type.  In the instance of the witness (bounds 0 and
  4, chunk 10, two threads) thread 1 gets [10, 19], beyond the loop's upper bound 4.
\<close>

theorem chunked_upper_unclamped:
  fixes incr chunk :: "'a::len word"
  assumes "32 \<le> LENGTH('a)"
    and "incr \<noteq> 0"
    and "\<not> zero_trip sg incr (plower s) (pupper s)"
    and "\<not> t_serialized c" and "1 < nth c"
    and "schedtype = kmp_sch_static_chunked \<or> schedtype = kmp_distribute_static_chunked"
    and "for_trip_count sg incr (plower s) (pupper s) = Inr trip_count"
    and "\<not> (env_consistency_check c \<and> trip_count = 0 \<and> pupper s \<noteq> plower s)"
  shows "\<exists>s'. kmp_for_static_init sg c schedtype incr chunk s = Inr s'
            \<and> pupper s' = plower s' + (if chunk <s 1 then 1 else chunk) * incr - incr"
  using for_static_init_chunked [OF assms, of chunk] by (simp add: Let_def)

theorem chunked_upper_unclamped_witness:
  "kmp_for_static_init False (ctx0\<lparr>tid := 1, nth := 2\<rparr>) kmp_sch_static_chunked
        (1 :: 32 word) 10 (cells0 0 4)
      = Inr \<lparr>plastiter = Some 0, plower = 10, pupper = 19, pstride = 20\<rparr>"
proof -
  have "\<exists>s'. kmp_for_static_init False (ctx0\<lparr>tid := 1, nth := 2\<rparr>) kmp_sch_static_chunked
            (1 :: 32 word) 10 (cells0 0 4) = Inr s'
          \<and> pupper s' = plower s' + (if (10 :: 32 word) <s 1 then 1 else 10) * 1 - 1"
    by (rule chunked_upper_unclamped [where trip_count = 5])
       (simp_all add: ctx0_def cells0_def zero_trip_def T_less_def for_trip_count_def
          word_sless_alt)
  then show ?thesis
    by (simp add: kmp_for_static_init_def static_chunked_def ctx0_def cells0_def zero_trip_def
          T_less_def for_trip_count_def UT_div_def UT_mod_def bindF_def set_last_def
          word_sless_alt)
qed

subsection \<open>One executor\<close>

text \<open>
  C6, as stated, fails: with one thread, bounds 0 and 9 and increment 2 the stride
  returned is 10, and the trip count is 5.
\<close>

theorem serial_stride_counterexample:
  "kmp_for_static_init True (ctx0\<lparr>nth := 1\<rparr>) kmp_sch_static (2 :: 32 word) 0 (cells0 0 9)
     = Inr \<lparr>plastiter = Some 1, plower = 0, pupper = 9, pstride = 10\<rparr>
   \<and> for_trip_count True 2 0 (9 :: 32 word) = Inr 5"
  by (simp add: kmp_for_static_init_def ctx0_def cells0_def zero_trip_def T_less_def
        serial_stride_def set_last_def for_trip_count_def T_div_def ST_div_def bindF_def
        word_sless_alt signed_divide_int_def)

text \<open>
  C6, amended.  For a non-empty space and a nonzero increment, when the team is
  serialized or has one thread, the bounds are unchanged, the last-iteration flag is
  TRUE, and the stride is \<open>upper - lower + 1\<close> for a positive increment and
  \<open>- (lower - upper + 1)\<close> for a negative one; that is the trip count (negated for a
  negative increment) when the increment is 1 or -1.
\<close>

theorem single_executor_whole_space:
  fixes incr chunk :: "'a::len word"
  assumes "32 \<le> LENGTH('a)"
    and "incr \<noteq> 0"
    and "\<not> zero_trip sg incr (plower s) (pupper s)"
    and "t_serialized c \<or> nth c = 1"
  shows "\<exists>s'. kmp_for_static_init sg c schedtype incr chunk s = Inr s'
           \<and> plower s' = plower s \<and> pupper s' = pupper s
           \<and> plastiter s' = map_option (\<lambda>_. 1) (plastiter s)
           \<and> pstride s' = (if 0 <s incr then pupper s - plower s + 1
                            else - (plower s - pupper s + 1))
           \<and> (incr = 1 \<longrightarrow> for_trip_count sg incr (plower s) (pupper s) = Inr (pstride s'))
           \<and> (incr = - 1 \<longrightarrow> for_trip_count sg incr (plower s) (pupper s) = Inr (- pstride s'))"
proof -
  have one: "sint (1 :: 'a word) = 1"
    using assms(1) by (simp add: signed_1)
  then have pos: "0 <s (1 :: 'a word)" and neg: "\<not> 0 <s (- 1 :: 'a word)"
    by (simp_all add: word_sless_alt)
  have m1: "(- 1 :: 'a word) \<noteq> 1"
    using one by (metis neg pos)
  show ?thesis
    using assms(2-) pos neg m1
    by (auto simp: kmp_for_static_init_def serial_stride_def set_last_def for_trip_count_def)
qed

theorem single_executor_whole_space_witness:
  "kmp_for_static_init True (ctx0\<lparr>t_serialized := True, nth := 8\<rparr>) kmp_sch_static
       (- 1 :: 32 word) 0 (cells0 9 0)
     = Inr \<lparr>plastiter = Some 1, plower = 9, pupper = 0, pstride = - 10\<rparr>
   \<and> for_trip_count True (- 1) 9 (0 :: 32 word) = Inr 10"
  using single_executor_whole_space [of "- 1 :: 32 word" True "cells0 9 0"
          "ctx0\<lparr>t_serialized := True, nth := 8\<rparr>" kmp_sch_static 0]
  by (auto simp: ctx0_def cells0_def zero_trip_def T_less_def word_sless_alt)

subsection \<open>Values of words\<close>

lemma T_less_val: "T_less sg a b \<longleftrightarrow> val sg a < val sg b"
  by (simp add: T_less_def val_def word_sless_alt word_less_alt)

lemma T_le_val: "T_le sg a b \<longleftrightarrow> val sg a \<le> val sg b"
  by (simp add: T_le_def val_def word_sle_eq word_le_def)

lemma word_of_int_val: "word_of_int (val sg a) = a"
  by (simp add: val_def)

lemma val_mx:
  "val sg (i_maxmin_mx sg :: 'a::len word)
     = (if sg then 2 ^ (LENGTH('a) - 1) - 1 else 2 ^ LENGTH('a) - 1)"
proof (cases sg)
  case True
  have "(2 ^ (LENGTH('a) - 1) - 1 :: 'a word) = word_of_int (2 ^ (LENGTH('a) - 1) - 1)"
    by simp
  also have "sint \<dots> = 2 ^ (LENGTH('a) - 1) - 1"
    unfolding sint_sbintrunc' by (rule signed_take_bit_int_eq_self) simp_all
  finally show ?thesis
    using True by (simp add: val_def i_maxmin_mx_def)
next
  case False
  then show ?thesis
    by (simp add: val_def i_maxmin_mx_def unsigned_minus_1_eq_mask mask_eq_exp_minus_1)
qed

lemma val_mn:
  "val sg (i_maxmin_mn sg :: 'a::len word) = (if sg then - (2 ^ (LENGTH('a) - 1)) else 0)"
proof (cases sg)
  case True
  have "(2 :: int) ^ LENGTH('a) - 2 ^ (LENGTH('a) - 1) = 2 ^ (LENGTH('a) - 1)"
    using power_minus_mult [of "LENGTH('a)" "2 :: int"] by simp
  then have "(word_of_int (2 ^ (LENGTH('a) - 1)) :: 'a word) = word_of_int (- (2 ^ (LENGTH('a) - 1)))"
    using word_of_int_minus [where 'a='a, of "2 ^ (LENGTH('a) - 1)"] by simp
  then have "(2 ^ (LENGTH('a) - 1) :: 'a word) = word_of_int (- (2 ^ (LENGTH('a) - 1)))"
    by simp
  also have "sint \<dots> = - (2 ^ (LENGTH('a) - 1))"
    unfolding sint_sbintrunc' by (rule signed_take_bit_int_eq_self) simp_all
  finally show ?thesis
    using True by (simp add: val_def i_maxmin_mn_def)
next
  case False
  then show ?thesis
    by (simp add: val_def i_maxmin_mn_def)
qed

lemma val_range:
  "val sg (i_maxmin_mn sg :: 'a::len word) \<le> val sg (a :: 'a word)"
  "val sg a \<le> val sg (i_maxmin_mx sg :: 'a word)"
  unfolding val_mx val_mn
  using sint_range_size [of a] uint_bounded [of a] 
  by (auto simp: val_def word_size)

lemma mx_minus_mn:
  "val sg (i_maxmin_mx sg :: 'a::len word) - val sg (i_maxmin_mn sg :: 'a word) = 2 ^ LENGTH('a) - 1"
proof -
  have "(2 :: int) ^ LENGTH('a) = 2 * 2 ^ (LENGTH('a) - 1)"
    by (metis len_gt_0 power_minus_mult mult.commute)
  then show ?thesis
    unfolding val_mx val_mn by simp
qed

text \<open>A word computed from an integer in the range of \<open>T\<close> has that value.\<close>

lemma val_word_of_int:
  assumes "val sg (i_maxmin_mn sg :: 'a::len word) \<le> m" "m \<le> val sg (i_maxmin_mx sg :: 'a word)"
  shows "val sg (word_of_int m :: 'a word) = m"
proof (cases sg)
  case True
  with assms have "- (2 ^ (LENGTH('a) - 1)) \<le> m" "m < 2 ^ (LENGTH('a) - 1)"
    by (simp_all add: val_mx val_mn)
  then show ?thesis
    using True by (simp add: val_def sint_sbintrunc' signed_take_bit_int_eq_self)
next
  case False
  with assms have "0 \<le> m" "m < 2 ^ LENGTH('a)"
    by (simp_all add: val_mx val_mn)
  then show ?thesis
    using False by (simp add: val_def uint_word_of_int)
qed

text \<open>... and one that overshoots the maximum by less than the size of the type wraps.\<close>

lemma val_word_of_int_wrap:
  assumes "val sg (i_maxmin_mx sg :: 'a::len word) < m"
    and "m \<le> val sg (i_maxmin_mx sg :: 'a word) + 2 ^ LENGTH('a)"
  shows "val sg (word_of_int m :: 'a word) = m - 2 ^ LENGTH('a)"
proof -
  have "(word_of_int m :: 'a word) = word_of_int (m - 2 ^ LENGTH('a))"
    by (simp add: word_of_int_eq_iff take_bit_eq_mod)
  moreover have "val sg (word_of_int (m - 2 ^ LENGTH('a)) :: 'a word) = m - 2 ^ LENGTH('a)"
    using assms mx_minus_mn [where 'a='a and sg=sg] by (intro val_word_of_int) auto
  ultimately show ?thesis by simp
qed

lemma uint_eq_sint:
  fixes w :: "'a::len word"
  assumes "0 \<le> sint w"
  shows "uint w = sint w"
proof -
  have "sint w < 2 ^ (LENGTH('a) - 1)"
    by (rule sint_lt)
  also have "(2 :: int) ^ (LENGTH('a) - 1) \<le> 2 ^ LENGTH('a)"
    by (rule power_increasing) simp_all
  finally have "sint w mod 2 ^ LENGTH('a) = sint w"
    using assms by simp
  moreover have "uint w = uint (word_of_int (sint w) :: 'a word)"
    by simp
  ultimately show ?thesis
    by (simp only: uint_word_of_int)
qed

lemma pos_incr:
  fixes incr :: "'a::len word"
  assumes "0 <s incr"
  shows "0 < sint incr" "uint incr = sint incr" "val sg' incr = sint incr"
proof -
  show p: "0 < sint incr"
    using assms by (simp add: word_sless_alt)
  then show u: "uint incr = sint incr"
    by (intro uint_eq_sint) simp
  then show "val sg' incr = sint incr"
    by (simp add: val_def)
qed


lemma sint_one:
  assumes "32 \<le> LENGTH('a::len)"
  shows "sint (1 :: 'a word) = 1"
  using assms by (simp add: signed_1)

lemma val_diff_nonneg:
  fixes lower upper :: "'a::len word"
  assumes le: "val sg lower \<le> val sg upper"
    and fit: "sg \<longrightarrow> val sg upper - val sg lower < 2 ^ (LENGTH('a) - 1)"
  shows "val sg (upper - lower) = val sg upper - val sg lower"
proof -
  have "upper - lower = word_of_int (val sg upper - val sg lower)"
    by (simp add: word_of_int_val wi_hom_syms)
  moreover have "val sg (word_of_int (val sg upper - val sg lower) :: 'a word)
                   = val sg upper - val sg lower"
  proof (rule val_word_of_int)
    have "val sg (i_maxmin_mn sg :: 'a word) \<le> 0"
      by (simp add: val_mn)
    then show "val sg (i_maxmin_mn sg :: 'a word) \<le> val sg upper - val sg lower"
      using le by linarith
    show "val sg upper - val sg lower \<le> val sg (i_maxmin_mx sg :: 'a word)"
      using fit val_range [of sg upper] val_range [of sg lower]
      by (cases sg) (simp_all add: val_mx val_mn)
  qed
  ultimately show ?thesis by simp
qed

lemma sdiv_nonneg: "0 \<le> k \<Longrightarrow> 0 < l \<Longrightarrow> k sdiv l = k div (l :: int)"
  by (cases "k = 0") (simp_all add: signed_divide_int_def)

lemma T_div_nonneg:
  fixes a b :: "'a::len word"
  assumes "0 \<le> val sg a" "0 <s b"
  shows "T_div sg a b = Inr (word_of_int (val sg a div sint b))"
proof -
  have b: "b \<noteq> 0" "0 < sint b" "uint b = sint b"
    using assms(2) pos_incr [of b] by (auto dest: sless_zero_neq)
  show ?thesis
  proof (cases sg)
    case True
    then show ?thesis
      using assms(1) b by (simp add: T_div_def ST_div_def val_def sdiv_nonneg)
  next
    case False
    have "a div b = word_of_int (uint (a div b))"
      by simp
    also have "\<dots> = word_of_int (uint a div sint b)"
      by (simp only: uint_div b)
    finally show ?thesis
      using False b by (simp add: T_div_def UT_div_def val_def)
  qed
qed

lemma for_trip_count_pos:
  fixes incr lower upper :: "'a::len word"
  assumes len: "32 \<le> LENGTH('a)"
    and pos: "0 <s incr"
    and le: "val sg lower \<le> val sg upper"
    and fit: "sg \<longrightarrow> val sg upper - val sg lower < 2 ^ (LENGTH('a) - 1)"
  shows "for_trip_count sg incr lower upper
           = Inr (word_of_int ((val sg upper - val sg lower) div sint incr + 1))"
proof (cases "incr = 1")
  case True
  have "upper - lower + 1 = word_of_int (val sg upper - val sg lower + 1)"
    by (simp add: word_of_int_val wi_hom_syms)
  moreover have "sint incr = 1"
    using True sint_one [OF len] by simp
  moreover have "for_trip_count sg incr lower upper = Inr (upper - lower + 1)"
    using True by (simp add: for_trip_count_def)
  ultimately show ?thesis
    by (simp only: div_by_1)
next
  case False
  have i: "0 < sint incr"
    using pos by (rule pos_incr)
  then have "incr \<noteq> - 1"
    by auto
  moreover have "1 <s incr"
  proof -
    have "sint incr \<noteq> 1"
    proof
      assume "sint incr = 1"
      then have "(word_of_int (sint incr) :: 'a word) = word_of_int 1"
        by (simp only:)
      then show False
        using False by simp
    qed
    then show ?thesis
      using i by (simp add: word_sless_alt sint_one [OF len])
  qed
  moreover have "T_div sg (upper - lower) incr
                   = Inr (word_of_int ((val sg upper - val sg lower) div sint incr))"
    using T_div_nonneg [of sg "upper - lower" incr] val_diff_nonneg [OF le fit] le pos
    by simp
  ultimately show ?thesis
    using False by (simp add: for_trip_count_def bindF_def wi_hom_syms)
qed

lemma trip_count_bounds:
  fixes lower upper :: "'a::len word"
  assumes "0 < i" "val sg lower \<le> val sg upper"
  shows "1 \<le> (val sg upper - val sg lower) div i + 1"
    and "(val sg upper - val sg lower) div i + 1 \<le> 2 ^ LENGTH('a)"
proof -
  have d: "0 \<le> val sg upper - val sg lower" "val sg upper - val sg lower \<le> 2 ^ LENGTH('a) - 1"
    using assms(2) val_range [of sg upper] val_range [of sg lower] mx_minus_mn [where 'a='a and sg=sg]
    by auto
  then have "0 \<le> (val sg upper - val sg lower) div i"
    using assms(1) by (simp add: pos_imp_zdiv_nonneg_iff)
  then show "1 \<le> (val sg upper - val sg lower) div i + 1" by simp
  have "(val sg upper - val sg lower) div i \<le> val sg upper - val sg lower"
    using d(1) assms(1) zdiv_mono2 [of "val sg upper - val sg lower" 1 i] by simp
  then show "(val sg upper - val sg lower) div i + 1 \<le> 2 ^ LENGTH('a)"
    using d(2) by simp
qed

lemma uint_trip_count:
  fixes lower upper tc :: "'a::len word"
  assumes "0 < i" "val sg lower \<le> val sg upper"
    and "tc = word_of_int ((val sg upper - val sg lower) div i + 1)" "tc \<noteq> 0"
  shows "uint tc = (val sg upper - val sg lower) div i + 1"
proof -
  let ?n = "(val sg upper - val sg lower) div i + 1"
  have b: "1 \<le> ?n" "?n \<le> 2 ^ LENGTH('a)"
    using trip_count_bounds [OF assms(1,2)] by simp_all
  have "?n \<noteq> 2 ^ LENGTH('a)"
  proof
    assume "?n = 2 ^ LENGTH('a)"
    then have "tc = word_of_int (2 ^ LENGTH('a))"
      by (simp only: assms(3))
    then show False
      using assms(4) by (simp only: word_of_int_2p_len)
  qed
  with b have "0 \<le> ?n" "?n < 2 ^ LENGTH('a)" by simp_all
  then have "?n mod 2 ^ LENGTH('a) = ?n" by simp
  then show ?thesis
    unfolding assms(3) by (simp only: uint_word_of_int)
qed

subsection \<open>The trip count and the greedy chunk, in integers\<close>

lemma ceil_div_bounds:
  assumes "1 \<le> n" "n \<le> a"
  shows "1 \<le> ceil_div a n" "ceil_div a n \<le> a" "a \<le> n * ceil_div a n"
    "n * (ceil_div a n - 1) < a" "2 \<le> n \<Longrightarrow> ceil_div a n \<le> a - 1"
proof -
  define q r where "q = a div n" and "r = a mod n"
  have a: "a = n * q + r"
    by (simp add: q_def r_def)
  have r: "0 \<le> r" "r < n"
    using assms by (simp_all add: r_def)
  have q: "1 \<le> q"
    using assms zdiv_mono1 [of n a n] by (simp add: q_def)
  have c: "ceil_div a n = q + (if r \<noteq> 0 then 1 else 0)"
    by (simp add: ceil_div_def q_def r_def)
  have nq: "1 * q \<le> n * q"
    using assms(1) q by (intro mult_right_mono) simp_all
  have nq2: "2 * q \<le> n * q" if "2 \<le> n"
    using that q by (intro mult_right_mono) simp_all
  have d: "n * (q + 1) = n * q + n" "n * (q + 1 - 1) = n * q" "n * (q - 1) = n * q - n"
    by (simp_all add: algebra_simps)
  consider "r = 0" "ceil_div a n = q" | "1 \<le> r" "ceil_div a n = q + 1"
    using r c by (cases "r = 0") auto
  then have "1 \<le> ceil_div a n \<and> ceil_div a n \<le> a \<and> a \<le> n * ceil_div a n
              \<and> n * (ceil_div a n - 1) < a \<and> (2 \<le> n \<longrightarrow> ceil_div a n \<le> a - 1)"
  proof cases
    case 1
    then show ?thesis
      unfolding 1(2) d using a q r nq nq2 assms(1) by (intro conjI impI; linarith)
  next
    case 2
    then show ?thesis
      unfolding 2(2) d using a q r nq nq2 assms(1) by (intro conjI impI; linarith)
  qed
  then show "1 \<le> ceil_div a n" "ceil_div a n \<le> a" "a \<le> n * ceil_div a n"
    "n * (ceil_div a n - 1) < a" "2 \<le> n \<Longrightarrow> ceil_div a n \<le> a - 1"
    by simp_all
qed

lemma word_ceil_div:
  fixes tc :: "'a::len word" and n :: kmp_uint32
  assumes len: "32 \<le> LENGTH('a)" and n: "n \<noteq> 0" and ge: "\<not> tc < ucast n"
  shows "tc div ucast n + (if tc mod ucast n \<noteq> 0 then 1 else 0)
           = word_of_int (ceil_div (uint tc) (uint n))"
    and "1 \<le> uint n" and "uint n \<le> uint tc"
proof -
  have un: "uint (ucast n :: 'a word) = uint n"
    by (rule uint_ucast_kmp_uint32 [OF len])
  have "uint n \<noteq> 0"
    using n by (simp add: uint_0_iff)
  then show 2: "1 \<le> uint n"
    using uint_ge_0 [of n] by linarith
  show "uint n \<le> uint tc"
    using ge un by (simp add: word_less_alt)
  have q: "tc div ucast n = word_of_int (uint tc div uint n)"
    by (metis uint_div un word_of_int_uint)
  have "tc mod ucast n \<noteq> 0 \<longleftrightarrow> uint tc mod uint n \<noteq> 0"
    by (metis uint_mod un uint_0_iff)
  then show "tc div ucast n + (if tc mod ucast n \<noteq> 0 then 1 else 0)
           = word_of_int (ceil_div (uint tc) (uint n))"
    unfolding q by (simp add: ceil_div_def wi_hom_syms)
qed

lemma div_mult_le_int:
  fixes a i :: int
  assumes "0 < i"
  shows "a div i * i \<le> a" and "a < (a div i + 1) * i"
proof -
  have "a div i * i + a mod i = a" by simp
  moreover have "0 \<le> a mod i" "a mod i < i" using assms by simp_all
  moreover have "(a div i + 1) * i = a div i * i + i" by (simp add: algebra_simps)
  ultimately show "a div i * i \<le> a" and "a < (a div i + 1) * i" by linarith+
qed

text \<open>The greedy branch for a positive increment, in integers.\<close>

lemma static_greedy_pos:
  fixes incr tc :: "'a::len word"
  assumes len: "32 \<le> LENGTH('a)"
    and pos: "0 <s incr"
    and le: "val sg (plower s) \<le> val sg (pupper s)"
    and tc: "uint tc = (val sg (pupper s) - val sg (plower s)) div sint incr + 1"
    and n: "n \<noteq> 0" and ge: "\<not> tc < ucast n" and two: "1 < tc"
    and nowrap: "val sg (plower s) + uint t * (ceil_div (uint tc) (uint n) * sint incr)
                   \<le> val sg (i_maxmin_mx sg :: 'a word)"
  defines "B \<equiv> ceil_div (uint tc) (uint n) * sint incr"
  shows "\<exists>s'. static_greedy sg t n incr tc s = Inr s'
           \<and> val sg (plower s') = val sg (plower s) + uint t * B
           \<and> val sg (pupper s') = min (val sg (pupper s)) (val sg (plower s) + uint t * B + B - sint incr)
           \<and> plastiter s' = map_option (\<lambda>_. of_bool
                 (val sg (plower s) + uint t * B \<le> val sg (pupper s)
                  \<and> val sg (pupper s) < val sg (plower s) + (uint t + 1) * B)) (plastiter s)
           \<and> pstride s' = pstride s"
proof -
  define L U I T C where "L = val sg (plower s)" and "U = val sg (pupper s)"
    and "I = sint incr" and "T = uint t" and "C = ceil_div (uint tc) (uint n)"
  define vmax vmin where "vmax = val sg (i_maxmin_mx sg :: 'a word)"
    and "vmin = val sg (i_maxmin_mn sg :: 'a word)"
  have B: "B = C * I" by (simp add: B_def C_def I_def)
  have I: "0 < I" "incr \<noteq> 0"
    using pos pos_incr(1) [of incr] by (auto simp: I_def dest: sless_zero_neq)
  have T: "0 \<le> T" by (simp add: T_def)
  note wc = word_ceil_div [OF len n ge]
  have nz: "(ucast n :: 'a word) \<noteq> 0"
    using n len by (auto simp: ucast_kmp_uint32_eq_0)
  have C: "1 \<le> C" "C \<le> uint tc"
    using ceil_div_bounds(1,2) [OF wc(2,3)] by (simp_all add: C_def)
  have span: "(uint tc - 1) * I \<le> U - L"
    unfolding tc L_def U_def I_def using I(1) [unfolded I_def]
    by (simp add: div_mult_le_int)
  have "2 \<le> uint tc"
    using two by (simp add: word_less_alt)
  then have "1 * I \<le> (uint tc - 1) * I"
    using I(1) by (intro mult_right_mono) simp_all
  with span have IU: "I \<le> U - L" by simp
  have "(C - 1) * I \<le> (uint tc - 1) * I"
    using C(2) I(1) by (intro mult_right_mono) simp_all
  moreover have "(C - 1) * I = B - I"
    by (simp add: B algebra_simps)
  ultimately have BU: "B - I \<le> U - L"
    using span by simp
  have "1 * I \<le> C * I"
    using C(1) I(1) by (intro mult_right_mono) simp_all
  then have IB: "I \<le> B" by (simp add: B)
  have TB: "0 \<le> T * B"
    using T IB I(1) by simp
  have rng: "vmin \<le> L" "L \<le> vmax" "vmin \<le> U" "U \<le> vmax"
    using val_range [of sg "plower s"] val_range [of sg "pupper s"]
    by (simp_all add: L_def U_def vmax_def vmin_def)
  have sz: "vmax - vmin = 2 ^ LENGTH('a) - 1"
    unfolding vmax_def vmin_def by (rule mx_minus_mn)
  have nw: "L + T * B \<le> vmax"
    using nowrap by (simp add: L_def T_def B_def vmax_def)
  \<comment> \<open>the words\<close>
  define big lower upper0 upper1 last upper2 where
    "big = (tc div ucast n + (if tc mod ucast n \<noteq> 0 then 1 else 0)) * incr"
    and "lower = plower s + ucast t * big"
    and "upper0 = lower + big - incr"
    and "upper1 = (if T_less sg upper0 lower then i_maxmin_mx sg else upper0)"
    and "last = (T_le sg lower (pupper s) \<and> T_less sg (pupper s - incr) upper1)"
    and "upper2 = (if T_less sg (pupper s) upper1 then pupper s else upper1)"
  have res: "static_greedy sg t n incr tc s
               = Inr (set_last last (s\<lparr>plower := lower, pupper := upper2\<rparr>))"
    using pos nz
    by (simp add: static_greedy_def UT_div_def UT_mod_def bindF_def Let_def big_def lower_def
          upper0_def upper1_def upper2_def last_def)
  have wI: "word_of_int I = incr" and wL: "word_of_int L = plower s"
    and wU: "word_of_int U = pupper s"
    by (simp_all add: I_def L_def U_def word_of_int_val)
  have wT: "(word_of_int T :: 'a word) = ucast t"
    by (simp only: T_def ucast_eq)
  have "word_of_int B = word_of_int C * (word_of_int I :: 'a word)"
    unfolding B by (simp only: wi_hom_syms)
  then have big: "big = word_of_int B"
    unfolding big_def wc(1) C_def wI by simp
  have "word_of_int (L + T * B) = word_of_int L + word_of_int T * (word_of_int B :: 'a word)"
    by (simp only: wi_hom_syms)
  then have lower: "lower = word_of_int (L + T * B)"
    unfolding lower_def big wL wT by simp
  have vl: "val sg lower = L + T * B"
    unfolding lower using rng TB nw
    by (intro val_word_of_int) (simp_all add: vmin_def vmax_def)
  define M where "M = L + T * B + B - I"
  have "word_of_int M = word_of_int (L + T * B) + word_of_int B - (word_of_int I :: 'a word)"
    unfolding M_def by (simp only: wi_hom_syms)
  then have upper0: "upper0 = word_of_int M"
    unfolding upper0_def lower big wI by simp
  have M: "L + T * B \<le> M" "M \<le> vmax + 2 ^ LENGTH('a)"
    unfolding M_def using IB BU nw rng sz I(1) by linarith+
  have v1: "val sg upper1 = min M vmax"
  proof (cases "M \<le> vmax")
    case True
    then have "val sg upper0 = M"
      unfolding upper0 using M(1) rng TB
      by (intro val_word_of_int) (simp_all add: vmin_def vmax_def)
    then show ?thesis
      using True M(1) by (simp add: upper1_def T_less_val vl)
  next
    case False
    then have "val sg upper0 = M - 2 ^ LENGTH('a)"
      unfolding upper0 using M(2)
      by (intro val_word_of_int_wrap) (simp_all add: vmax_def)
    moreover have "M - 2 ^ LENGTH('a) < L + T * B"
      unfolding M_def using BU rng sz I(1) by linarith
    ultimately show ?thesis
      using False by (simp add: upper1_def T_less_val vl vmax_def)
  qed
  have "pupper s - incr = word_of_int (U - I)"
    unfolding wI [symmetric] wU [symmetric] by (simp only: wi_hom_syms)
  moreover have "val sg (word_of_int (U - I) :: 'a word) = U - I"
    using rng I(1) IU by (intro val_word_of_int) (simp_all add: vmin_def vmax_def)
  ultimately have vu: "val sg (pupper s - incr) = U - I" by simp
  have last: "last \<longleftrightarrow> L + T * B \<le> U \<and> U < L + (T + 1) * B"
  proof -
    have "U - I < min M vmax \<longleftrightarrow> U < L + (T + 1) * B"
      using rng I(1) by (auto simp: M_def algebra_simps)
    then show ?thesis
      by (simp add: last_def T_le_val T_less_val vl vu v1 U_def [symmetric])
  qed
  have v2: "val sg upper2 = min U M"
    using rng by (auto simp: upper2_def T_less_val v1 U_def [symmetric])
  show ?thesis
    unfolding res B [symmetric]
    using vl v2 last
    by (simp add: set_last_def L_def U_def T_def M_def I_def)
qed

subsection \<open>Iteration sets\<close>

lemma le_div_iff_int:
  fixes a i k :: int
  assumes "0 < i"
  shows "k \<le> a div i \<longleftrightarrow> k * i \<le> a"
proof
  assume "k \<le> a div i"
  then have "k * i \<le> a div i * i"
    using assms by (intro mult_right_mono) simp_all
  then show "k * i \<le> a"
    using div_mult_le_int(1) [OF assms, of a] by linarith
next
  assume "k * i \<le> a"
  then have "k * i div i \<le> a div i"
    using assms by (intro zdiv_mono1)
  then show "k \<le> a div i"
    using assms by simp
qed

text \<open>The values of a range \<open>[lo, lo + (m - 1) * I]\<close> cut off at \<open>U\<close>, as iteration numbers.\<close>

lemma iterations_pos:
  fixes incr lo up :: "'a::len word"
  assumes "0 <s incr"
  shows "iterations sg incr lo up
           = (\<lambda>k. val sg lo + k * sint incr) ` {k. 0 \<le> k \<and> val sg lo + k * sint incr \<le> val sg up}"
proof -
  have "0 < sint incr"
    using assms by (rule pos_incr)
  then have "{0 .. (val sg up - val sg lo) div sint incr}
               = {k. 0 \<le> k \<and> val sg lo + k * sint incr \<le> val sg up}"
    by (auto simp: le_div_iff_int)
  then show ?thesis
    using assms by (simp add: iterations_def)
qed

lemma index_window:
  fixes L I U a m :: int
  assumes I: "0 < I" and a: "0 \<le> a"
  shows "(\<lambda>k. (L + a * I) + k * I) ` {k. 0 \<le> k \<and> (L + a * I) + k * I \<le> min U (L + a * I + m * I - I)}
           = (\<lambda>j. L + j * I) ` {j. a \<le> j \<and> j < a + m \<and> j \<le> (U - L) div I}"
    (is "?A = ?B")
proof (rule set_eqI)
  fix v
  have *: "L + a * I + k * I \<le> L + a * I + m * I - I \<longleftrightarrow> a + k < a + m" for k
  proof -
    have "L + a * I + k * I \<le> L + a * I + m * I - I \<longleftrightarrow> (k + 1) * I \<le> m * I"
      by (simp add: algebra_simps)
    also have "\<dots> \<longleftrightarrow> k + 1 \<le> m"
      using I by simp
    also have "\<dots> \<longleftrightarrow> a + k < a + m"
      by linarith
    finally show ?thesis .
  qed
  have **: "L + a * I + k * I \<le> U \<longleftrightarrow> a + k \<le> (U - L) div I" for k
    using le_div_iff_int [OF I, of "a + k" "U - L"] by (simp add: algebra_simps)
  show "v \<in> ?A \<longleftrightarrow> v \<in> ?B"
  proof
    assume "v \<in> ?A"
    then obtain k where k: "0 \<le> k" "L + a * I + k * I \<le> U" "a + k < a + m"
      and v: "v = L + a * I + k * I"
      using * by auto
    have "a + k \<le> (U - L) div I"
      using k(2) ** by simp
    moreover have "v = L + (a + k) * I"
      using v by (simp add: algebra_simps)
    ultimately show "v \<in> ?B"
      using k(1,3) by auto
  next
    assume "v \<in> ?B"
    then obtain j where j: "a \<le> j" "j < a + m" "j \<le> (U - L) div I" and v: "v = L + j * I"
      by auto
    define k where "k = j - a"
    have k: "0 \<le> k" "a + k < a + m" "a + k \<le> (U - L) div I"
      using j by (simp_all add: k_def)
    have "v = L + a * I + k * I"
      using v by (simp add: k_def algebra_simps)
    moreover have "L + a * I + k * I \<le> min U (L + a * I + m * I - I)"
      using k * [of k] ** [of k] by simp
    ultimately show "v \<in> ?A"
      using k(1) by blast
  qed
qed

lemma zero_trip_pos:
  "0 <s incr \<Longrightarrow> zero_trip sg incr lower upper \<longleftrightarrow> val sg upper < val sg lower"
  by (simp add: zero_trip_def T_less_val)

lemma for_static_init_static:
  fixes incr chunk :: "'a::len word"
  assumes incr: "incr \<noteq> 0"
    and nz: "\<not> zero_trip sg incr (plower s) (pupper s)"
    and par: "\<not> t_serialized c" "nth c \<noteq> 1"
    and sched: "schedtype = kmp_sch_static \<or> schedtype = kmp_distribute_static"
    and tc: "for_trip_count sg incr (plower s) (pupper s) = Inr trip_count"
    and chk: "\<not> (env_consistency_check c \<and> trip_count = 0 \<and> pupper s \<noteq> plower s)"
  shows "kmp_for_static_init sg c schedtype incr chunk s =
           (if trip_count < ucast (nth c) then Inr (static_fewer (tid c) incr trip_count s)
            else if kmp_static c = kmp_sch_static_balanced
              then static_balanced (tid c) (nth c) incr trip_count s
              else static_greedy sg (tid c) (nth c) incr trip_count s)"
  using assms unfolding kmp_for_static_init_def by (auto simp: bindF_def)

text \<open>What the hypotheses of the general case with a positive increment give.\<close>

lemma general_pos:
  fixes incr :: "'a::len word"
  assumes len: "32 \<le> LENGTH('a)"
    and pos: "0 <s incr"
    and le: "val sg (plower s) \<le> val sg (pupper s)"
    and fit: "sg \<longrightarrow> val sg (pupper s) - val sg (plower s) < 2 ^ (LENGTH('a) - 1)"
    and tc: "for_trip_count sg incr (plower s) (pupper s) = Inr trip_count"
    and nz: "trip_count \<noteq> 0"
  shows "uint trip_count = (val sg (pupper s) - val sg (plower s)) div sint incr + 1"
    and "incr \<noteq> 0" and "\<not> zero_trip sg incr (plower s) (pupper s)"
proof -
  have "trip_count = word_of_int ((val sg (pupper s) - val sg (plower s)) div sint incr + 1)"
    using for_trip_count_pos [OF len pos le fit] tc by simp
  then show "uint trip_count = (val sg (pupper s) - val sg (plower s)) div sint incr + 1"
    using pos_incr(1) [OF pos] le nz by (intro uint_trip_count)
  show "incr \<noteq> 0"
    using pos by (rule sless_zero_neq)
  show "\<not> zero_trip sg incr (plower s) (pupper s)"
    using le pos by (simp add: zero_trip_pos)
qed

lemma assigned_greedy_pos:
  fixes incr chunk :: "'a::len word"
  assumes len: "32 \<le> LENGTH('a)"
    and pos: "0 <s incr"
    and le: "val sg (plower s) \<le> val sg (pupper s)"
    and fit: "sg \<longrightarrow> val sg (pupper s) - val sg (plower s) < 2 ^ (LENGTH('a) - 1)"
    and par: "\<not> t_serialized c" "1 < nth c"
    and sched: "schedtype = kmp_sch_static \<or> schedtype = kmp_distribute_static"
    and flavor: "kmp_static c = kmp_sch_static_greedy"
    and tc: "for_trip_count sg incr (plower s) (pupper s) = Inr trip_count"
    and ge: "\<not> trip_count < ucast (nth c)"
    and nowrap: "val sg (plower s) + uint t * (ceil_div (uint trip_count) (uint (nth c)) * sint incr)
                   \<le> val sg (i_maxmin_mx sg :: 'a word)"
  defines "C \<equiv> ceil_div (uint trip_count) (uint (nth c))"
  shows "\<exists>s'. kmp_for_static_init sg (c\<lparr>tid := t\<rparr>) schedtype incr chunk s = Inr s'"
    and "assigned sg c schedtype incr chunk s t
           = (\<lambda>j. val sg (plower s) + j * sint incr) `
               {j. uint t * C \<le> j \<and> j < uint t * C + C \<and> j < uint trip_count}"
proof -
  have n1: "nth c \<noteq> 1" "nth c \<noteq> 0" using par(2) by auto
  have two: "1 < trip_count"
    using ge par(2) uint_ucast_kmp_uint32 [OF len, of "nth c"] by (simp add: word_less_alt)
  then have n0: "trip_count \<noteq> 0" by auto
  note g = general_pos [OF len pos le fit tc n0]
  have eq: "kmp_for_static_init sg (c\<lparr>tid := t\<rparr>) schedtype incr chunk s
              = static_greedy sg t (nth c) incr trip_count s"
    using for_static_init_static [of incr sg s "c\<lparr>tid := t\<rparr>" schedtype trip_count chunk]
      g(2,3) par(1) n1(1) sched tc n0 ge flavor
    by simp
  obtain s' where s': "static_greedy sg t (nth c) incr trip_count s = Inr s'"
    and lo: "val sg (plower s') = val sg (plower s) + uint t * (C * sint incr)"
    and up: "val sg (pupper s') = min (val sg (pupper s))
               (val sg (plower s) + uint t * (C * sint incr) + C * sint incr - sint incr)"
    using static_greedy_pos [OF len pos le g(1) n1(2) ge two nowrap] unfolding C_def by blast
  show "\<exists>s'. kmp_for_static_init sg (c\<lparr>tid := t\<rparr>) schedtype incr chunk s = Inr s'"
    using eq s' by simp
  have I: "0 < sint incr" using pos by (rule pos_incr)
  have a: "0 \<le> uint t * C"
    using ceil_div_bounds(1) [OF word_ceil_div(2,3) [OF len n1(2) ge]] by (simp add: C_def)
  have "assigned sg c schedtype incr chunk s t = iterations sg incr (plower s') (pupper s')"
    by (simp add: assigned_def eq s')
  also have "\<dots> = (\<lambda>k. (val sg (plower s) + uint t * C * sint incr) + k * sint incr) `
       {k. 0 \<le> k \<and> (val sg (plower s) + uint t * C * sint incr) + k * sint incr
              \<le> min (val sg (pupper s))
                   (val sg (plower s) + uint t * C * sint incr + C * sint incr - sint incr)}"
    unfolding iterations_pos [OF pos] lo up by (simp add: mult.assoc)
  also have "\<dots> = (\<lambda>j. val sg (plower s) + j * sint incr) `
       {j. uint t * C \<le> j \<and> j < uint t * C + C
           \<and> j \<le> (val sg (pupper s) - val sg (plower s)) div sint incr}"
    by (rule index_window [OF I a])
  also have "\<dots> = (\<lambda>j. val sg (plower s) + j * sint incr) `
       {j. uint t * C \<le> j \<and> j < uint t * C + C \<and> j < uint trip_count}"
    unfolding g(1) by (simp add: zless_add1_eq le_less)
  finally show "assigned sg c schedtype incr chunk s t
           = (\<lambda>j. val sg (plower s) + j * sint incr) `
               {j. uint t * C \<le> j \<and> j < uint t * C + C \<and> j < uint trip_count}" .
qed

lemma uint_image_below:
  fixes n :: "'b::len word"
  shows "uint ` {t. t < n} = {0 ..< uint n}"
proof (rule set_eqI)
  fix k
  show "k \<in> uint ` {t. t < n} \<longleftrightarrow> k \<in> {0 ..< uint n}"
  proof
    assume "k \<in> uint ` {t. t < n}"
    then show "k \<in> {0 ..< uint n}"
      by (auto simp: word_less_alt)
  next
    assume k: "k \<in> {0 ..< uint n}"
    then have "k < 2 ^ LENGTH('b)"
      using uint_bounded [of n] by (simp only: atLeastLessThan_iff) linarith
    then have "uint (word_of_int k :: 'b word) = k"
      using k by (simp add: uint_word_of_int)
    moreover from this have "(word_of_int k :: 'b word) < n"
      using k by (simp add: word_less_alt)
    ultimately show "k \<in> uint ` {t. t < n}"
      by (metis (mono_tags) imageI mem_Collect_eq)
  qed
qed

lemma window_cover:
  fixes C N TC :: int
  assumes C: "1 \<le> C" and cover: "TC \<le> N * C"
  shows "(\<Union>T\<in>{0 ..< N}. {j. T * C \<le> j \<and> j < T * C + C \<and> j < TC}) = {0 ..< TC}"
proof (rule set_eqI)
  fix j
  show "j \<in> (\<Union>T\<in>{0 ..< N}. {j. T * C \<le> j \<and> j < T * C + C \<and> j < TC}) \<longleftrightarrow> j \<in> {0 ..< TC}"
  proof
    assume "j \<in> (\<Union>T\<in>{0 ..< N}. {j. T * C \<le> j \<and> j < T * C + C \<and> j < TC})"
    then obtain T where "0 \<le> T" "T * C \<le> j" "j < TC" by auto
    moreover have "0 \<le> T * C" using \<open>0 \<le> T\<close> C by simp
    ultimately show "j \<in> {0 ..< TC}" by simp
  next
    assume j: "j \<in> {0 ..< TC}"
    have C0: "0 < C" using C by simp
    define T where "T = j div C"
    have "T * C \<le> j" "j < T * C + C"
      using div_mult_le_int [OF C0, of j] by (simp_all add: T_def algebra_simps)
    moreover have "0 \<le> T"
      using j C0 by (simp add: T_def pos_imp_zdiv_nonneg_iff)
    moreover have "T < N"
    proof (rule ccontr)
      assume "\<not> T < N"
      then have "N * C \<le> T * C"
        using C0 by (intro mult_right_mono) simp_all
      then show False
        using \<open>T * C \<le> j\<close> j cover by simp
    qed
    ultimately show "j \<in> (\<Union>T\<in>{0 ..< N}. {j. T * C \<le> j \<and> j < T * C + C \<and> j < TC})"
      using j by auto
  qed
qed

lemma window_disjoint:
  fixes C T T' :: int
  assumes "0 \<le> C" "T \<noteq> T'"
  shows "{j. T * C \<le> j \<and> j < T * C + C \<and> j < TC} \<inter> {j. T' * C \<le> j \<and> j < T' * C + C \<and> j < TC} = {}"
proof -
  have *: "{j. a * C \<le> j \<and> j < a * C + C \<and> j < TC} \<inter> {j. b * C \<le> j \<and> j < b * C + C \<and> j < TC} = {}"
    if "a < b" for a b :: int
  proof -
    have "(a + 1) * C \<le> b * C"
      using that assms(1) by (intro mult_right_mono) simp_all
    then have "a * C + C \<le> b * C"
      by (simp add: algebra_simps)
    then show ?thesis by auto
  qed
  show ?thesis
    using * [of T T'] * [of T' T] assms(2) by (cases "T < T'") (auto simp: Int_commute)
qed

lemma window_empty_iff:
  fixes C T TC :: int
  assumes "1 \<le> C"
  shows "{j. T * C \<le> j \<and> j < T * C + C \<and> j < TC} = {} \<longleftrightarrow> TC \<le> T * C"
proof
  assume e: "{j. T * C \<le> j \<and> j < T * C + C \<and> j < TC} = {}"
  show "TC \<le> T * C"
  proof (rule ccontr)
    assume "\<not> TC \<le> T * C"
    then have "T * C \<in> {j. T * C \<le> j \<and> j < T * C + C \<and> j < TC}"
      using assms by simp
    with e show False by blast
  qed
next
  assume "TC \<le> T * C"
  then show "{j. T * C \<le> j \<and> j < T * C + C \<and> j < TC} = {}" by auto
qed

text \<open>
  C1, as stated, fails in three ways.  With 5 iterations and 4 threads the greedy chunk
  is 2, and thread 3 is told the empty range [6, 4] although the trip count is not below
  the number of threads.  With the bounds 0xFFFFFFFA and 0xFFFFFFFE of an unsigned loop
  the lower bound of thread 3 wraps around, and the thread is told the range [0, 1],
  which is not part of the loop.  And the unsigned loop from 0 to 0xFFFFFFFF has \<open>2\<^sup>3\<^sup>2\<close>
  iterations, the counter of the routine is 0, and with the consistency check off each
  of two threads is told the whole range.
\<close>

theorem greedy_partition_counterexample:
  "for_trip_count False (1 :: 32 word) 0 4 = Inr 5
   \<and> kmp_for_static_init False (ctx0\<lparr>tid := 3, nth := 4\<rparr>) kmp_sch_static (1 :: 32 word) 0 (cells0 0 4)
       = Inr \<lparr>plastiter = Some 0, plower = 6, pupper = 4, pstride = 0\<rparr>
   \<and> kmp_for_static_init False (ctx0\<lparr>tid := 3, nth := 4\<rparr>) kmp_sch_static (1 :: 32 word) 0
         (cells0 0xFFFFFFFA 0xFFFFFFFE)
       = Inr \<lparr>plastiter = Some 0, plower = 0, pupper = 1, pstride = 0\<rparr>
   \<and> legal False (1 :: 32 word) 0 0xFFFFFFFF
   \<and> trip_of False (1 :: 32 word) 0 0xFFFFFFFF = 2 ^ 32
   \<and> kmp_for_static_init False (ctx0\<lparr>env_consistency_check := False, tid := 0, nth := 2\<rparr>)
         kmp_sch_static (1 :: 32 word) 0 (cells0 0 0xFFFFFFFF)
       = Inr \<lparr>plastiter = Some 0, plower = 0, pupper = 0xFFFFFFFF, pstride = 0\<rparr>
   \<and> kmp_for_static_init False (ctx0\<lparr>env_consistency_check := False, tid := 1, nth := 2\<rparr>)
         kmp_sch_static (1 :: 32 word) 0 (cells0 0 0xFFFFFFFF)
       = Inr \<lparr>plastiter = Some 0, plower = 0, pupper = 0xFFFFFFFF, pstride = 0\<rparr>"
proof -
  have "for_trip_count False (1 :: 32 word) 0 4 = Inr 5
   \<and> kmp_for_static_init False (ctx0\<lparr>tid := 3, nth := 4\<rparr>) kmp_sch_static (1 :: 32 word) 0 (cells0 0 4)
       = Inr \<lparr>plastiter = Some 0, plower = 6, pupper = 4, pstride = 0\<rparr>
   \<and> kmp_for_static_init False (ctx0\<lparr>tid := 3, nth := 4\<rparr>) kmp_sch_static (1 :: 32 word) 0
         (cells0 0xFFFFFFFA 0xFFFFFFFE)
       = Inr \<lparr>plastiter = Some 0, plower = 0, pupper = 1, pstride = 0\<rparr>"
    by (simp add: kmp_for_static_init_def ctx0_def cells0_def zero_trip_def T_less_def T_le_def
          for_trip_count_def static_greedy_def bindF_def UT_div_def UT_mod_def set_last_def
          i_maxmin_mx_def Let_def word_sless_alt)
  moreover have "legal False (1 :: 32 word) 0 0xFFFFFFFF"
    by (simp add: legal_def val_def word_sless_alt)
  moreover have "trip_of False (1 :: 32 word) 0 0xFFFFFFFF = 2 ^ 32"
    by (simp add: trip_of_def val_def word_sless_alt)
  moreover have tc: "for_trip_count False (1 :: 32 word) 0 0xFFFFFFFF = Inr 0"
    by (simp add: for_trip_count_def)
  have
    "kmp_for_static_init False (ctx0\<lparr>env_consistency_check := False, tid := 0, nth := 2\<rparr>)
         kmp_sch_static (1 :: 32 word) 0 (cells0 0 0xFFFFFFFF)
       = Inr \<lparr>plastiter = Some 0, plower = 0, pupper = 0xFFFFFFFF, pstride = 0\<rparr>"
    "kmp_for_static_init False (ctx0\<lparr>env_consistency_check := False, tid := 1, nth := 2\<rparr>)
         kmp_sch_static (1 :: 32 word) 0 (cells0 0 0xFFFFFFFF)
       = Inr \<lparr>plastiter = Some 0, plower = 0, pupper = 0xFFFFFFFF, pstride = 0\<rparr>"
    by (simp_all add: kmp_for_static_init_def ctx0_def cells0_def zero_trip_def T_less_def
          tc static_fewer_def bindF_def set_last_def word_sless_alt)
  ultimately show ?thesis
    by (simp only: simp_thms)
qed

text \<open>
  The greedy partition in terms of the counter \<open>trip_count\<close> of the routine: when the
  counter is not below the number of threads and no start exceeds the maximum of the
  type, every call returns, the ranges of the threads cover the loop without overlap,
  and thread \<open>t\<close> is given no iteration exactly when \<open>t * \<lceil>trip_count / nth\<rceil> \<ge> trip_count\<close>.
\<close>

lemma greedy_partition_tc:
  fixes incr chunk :: "'a::len word"
  assumes len: "32 \<le> LENGTH('a)"
    and pos: "0 <s incr"
    and le: "val sg (plower s) \<le> val sg (pupper s)"
    and fit: "sg \<longrightarrow> val sg (pupper s) - val sg (plower s) < 2 ^ (LENGTH('a) - 1)"
    and par: "\<not> t_serialized c" "1 < nth c"
    and sched: "schedtype = kmp_sch_static \<or> schedtype = kmp_distribute_static"
    and flavor: "kmp_static c = kmp_sch_static_greedy"
    and tc: "for_trip_count sg incr (plower s) (pupper s) = Inr trip_count"
    and ge: "\<not> trip_count < ucast (nth c)"
    and nowrap: "val sg (plower s)
                   + (uint (nth c) - 1) * (ceil_div (uint trip_count) (uint (nth c)) * sint incr)
                   \<le> val sg (i_maxmin_mx sg :: 'a word)"
  shows "(\<forall>t. t < nth c \<longrightarrow>
            (\<exists>s'. kmp_for_static_init sg (c\<lparr>tid := t\<rparr>) schedtype incr chunk s = Inr s'))
       \<and> (\<Union>t\<in>{t. t < nth c}. assigned sg c schedtype incr chunk s t)
            = iterations sg incr (plower s) (pupper s)
       \<and> (\<forall>t u. t < nth c \<and> u < nth c \<and> t \<noteq> u \<longrightarrow>
            assigned sg c schedtype incr chunk s t \<inter> assigned sg c schedtype incr chunk s u = {})
       \<and> (\<forall>t. t < nth c \<longrightarrow>
            (assigned sg c schedtype incr chunk s t = {}
               \<longleftrightarrow> uint trip_count \<le> uint t * ceil_div (uint trip_count) (uint (nth c))))"
proof -
  define C N TC L I where "C = ceil_div (uint trip_count) (uint (nth c))"
    and "N = uint (nth c)" and "TC = uint trip_count"
    and "L = val sg (plower s)" and "I = sint incr"
  define win where "win T = {j. T * C \<le> j \<and> j < T * C + C \<and> j < TC}" for T
  define g where "g j = L + j * I" for j
  have I: "0 < I" unfolding I_def using pos by (rule pos_incr)
  have nn: "nth c \<noteq> 0" using par(2) by auto
  note wc = word_ceil_div(2,3) [OF len nn ge]
  note cb = ceil_div_bounds(1-4) [OF wc, folded C_def N_def TC_def]
  have n0: "trip_count \<noteq> 0" using wc by auto
  note gp = general_pos [OF len pos le fit tc n0]
  have inj: "inj g"
    using I by (auto simp: inj_on_def g_def)
  have nw: "val sg (plower s) + uint t * (ceil_div (uint trip_count) (uint (nth c)) * sint incr)
              \<le> val sg (i_maxmin_mx sg :: 'a word)" if "t < nth c" for t
  proof -
    have "uint t \<le> N - 1"
      using that by (simp add: N_def word_less_alt)
    moreover have "0 \<le> C * I"
      using cb(1) I by simp
    ultimately have "uint t * (C * I) \<le> (N - 1) * (C * I)"
      by (intro mult_right_mono)
    then show ?thesis
      using nowrap by (simp add: C_def I_def N_def)
  qed
  have asg: "assigned sg c schedtype incr chunk s t = g ` win (uint t)" if "t < nth c" for t
    using assigned_greedy_pos(2) [OF len pos le fit par sched flavor tc ge nw [OF that], of chunk]
    by (simp add: g_def [abs_def] win_def [abs_def] C_def TC_def L_def I_def)
  have ret: "\<exists>s'. kmp_for_static_init sg (c\<lparr>tid := t\<rparr>) schedtype incr chunk s = Inr s'"
    if "t < nth c" for t
    using assigned_greedy_pos(1) [OF len pos le fit par sched flavor tc ge nw [OF that]] .
  have "(\<Union>t\<in>{t. t < nth c}. assigned sg c schedtype incr chunk s t)
          = (\<Union>t\<in>{t. t < nth c}. g ` win (uint t))"
    using asg by simp
  also have "\<dots> = g ` (\<Union>T\<in>uint ` {t. t < nth c}. win T)"
    by auto
  also have "\<dots> = g ` {0 ..< TC}"
    unfolding uint_image_below win_def N_def [symmetric]
    using window_cover [OF cb(1,3)] by simp
  also have "\<dots> = iterations sg incr (plower s) (pupper s)"
  proof -
    have "{0 ..< TC} = {0 .. (val sg (pupper s) - val sg (plower s)) div sint incr}"
      unfolding TC_def gp(1) by auto
    then show ?thesis
      using pos by (simp add: iterations_def g_def [abs_def] L_def I_def)
  qed
  finally have cover: "(\<Union>t\<in>{t. t < nth c}. assigned sg c schedtype incr chunk s t)
                         = iterations sg incr (plower s) (pupper s)" .
  have disj: "assigned sg c schedtype incr chunk s t \<inter> assigned sg c schedtype incr chunk s u = {}"
    if "t < nth c" "u < nth c" "t \<noteq> u" for t u
  proof -
    have "uint t \<noteq> uint u"
      using that(3) by (metis word_of_int_uint)
    then have "win (uint t) \<inter> win (uint u) = {}"
      unfolding win_def using cb(1) by (intro window_disjoint) simp_all
    then have "g ` win (uint t) \<inter> g ` win (uint u) = {}"
      using inj by (simp add: image_Int [symmetric])
    then show ?thesis
      using asg that by simp
  qed
  have emp: "assigned sg c schedtype incr chunk s t = {} \<longleftrightarrow> TC \<le> uint t * C"
    if "t < nth c" for t
    using asg [OF that] window_empty_iff [OF cb(1), of "uint t" TC] by (simp add: win_def)
  show ?thesis
    using ret cover disj emp unfolding TC_def C_def by blast
qed

subsection \<open>Negative increments\<close>

lemma neg_incr:
  fixes incr :: "'a::len word"
  assumes "incr <s 0" "0 <s - incr"
  shows "sint incr < 0" "sint (- incr) = - sint incr" "incr \<noteq> 0" "\<not> 0 <s incr"
    "val sg' (- incr) = - sint incr"
proof -
  show n: "sint incr < 0"
    using assms(1) by (simp add: word_sless_alt)
  have p: "0 < sint (- incr)"
    using assms(2) by (simp add: word_sless_alt)
  have "sint incr \<noteq> - (2 ^ (LENGTH('a) - 1))"
  proof
    assume m: "sint incr = - (2 ^ (LENGTH('a) - 1))"
    have "(2 :: int) ^ LENGTH('a) - 2 ^ (LENGTH('a) - 1) = 2 ^ (LENGTH('a) - 1)"
      using power_minus_mult [of "LENGTH('a)" "2 :: int"] by simp
    then have "(word_of_int (2 ^ (LENGTH('a) - 1)) :: 'a word)
                 = word_of_int (- (2 ^ (LENGTH('a) - 1)))"
      using word_of_int_minus [where 'a='a, of "2 ^ (LENGTH('a) - 1)"] by simp
    then have "(word_of_int (- sint incr) :: 'a word) = word_of_int (sint incr)"
      unfolding m by simp
    then have "- incr = incr"
      by (simp add: wi_hom_syms)
    then have "sint (- incr) = sint incr"
      by (simp only:)
    then show False
      using n p by linarith
  qed
  then have "- (2 ^ (LENGTH('a) - 1)) \<le> - sint incr" "- sint incr \<le> 2 ^ (LENGTH('a) - 1) - 1"
    using sint_range_size [of incr] by (simp_all add: word_size)
  then have "val True (word_of_int (- sint incr) :: 'a word) = - sint incr"
    by (intro val_word_of_int) (simp_all add: val_mn val_mx)
  then show s: "sint (- incr) = - sint incr"
    by (simp add: val_def wi_hom_syms)
  show "incr \<noteq> 0" using n by auto
  show "\<not> 0 <s incr" using n by (simp add: word_sless_alt)
  show "val sg' (- incr) = - sint incr"
    using pos_incr(3) [OF assms(2), of sg'] s by simp
qed


lemma val_word_of_int_wrap_down:
  assumes "m < val sg (i_maxmin_mn sg :: 'a::len word)"
    and "val sg (i_maxmin_mn sg :: 'a word) - 2 ^ LENGTH('a) \<le> m"
  shows "val sg (word_of_int m :: 'a word) = m + 2 ^ LENGTH('a)"
proof -
  have "(word_of_int m :: 'a word) = word_of_int (m + 2 ^ LENGTH('a))"
    by (simp add: word_of_int_eq_iff take_bit_eq_mod)
  moreover have "val sg (word_of_int (m + 2 ^ LENGTH('a)) :: 'a word) = m + 2 ^ LENGTH('a)"
    using assms mx_minus_mn [where 'a='a and sg=sg] by (intro val_word_of_int) auto
  ultimately show ?thesis by simp
qed

lemma for_trip_count_neg:
  fixes incr lower upper :: "'a::len word"
  assumes len: "32 \<le> LENGTH('a)"
    and neg: "incr <s 0" "0 <s - incr"
    and le: "val sg upper \<le> val sg lower"
    and fit: "sg \<longrightarrow> val sg lower - val sg upper < 2 ^ (LENGTH('a) - 1)"
  shows "for_trip_count sg incr lower upper
           = Inr (word_of_int ((val sg lower - val sg upper) div (- sint incr) + 1))"
proof -
  note ni = neg_incr [OF neg]
  have one: "incr \<noteq> 1"
    using ni(1) sint_one [OF len] by auto
  show ?thesis
  proof (cases "incr = - 1")
    case True
    have "lower - upper + 1 = word_of_int (val sg lower - val sg upper + 1)"
      by (simp add: word_of_int_val wi_hom_syms)
    moreover have "- sint incr = 1"
      using True by simp
    moreover have "for_trip_count sg incr lower upper = Inr (lower - upper + 1)"
      using True one by (simp add: for_trip_count_def)
    ultimately show ?thesis
      by (simp only: div_by_1)
  next
    case False
    have "\<not> 1 <s incr"
      using ni(1) sint_one [OF len] by (simp add: word_sless_alt)
    moreover have "T_div sg (lower - upper) (- incr)
                     = Inr (word_of_int ((val sg lower - val sg upper) div (- sint incr)))"
      using T_div_nonneg [of sg "lower - upper" "- incr"] val_diff_nonneg [OF le fit] le neg(2)
        ni(2)
      by simp
    ultimately show ?thesis
      using False one by (simp add: for_trip_count_def bindF_def wi_hom_syms)
  qed
qed

text \<open>The greedy branch for a negative increment, in integers.\<close>

lemma static_greedy_neg:
  fixes incr tc :: "'a::len word"
  assumes len: "32 \<le> LENGTH('a)"
    and neg: "incr <s 0" "0 <s - incr"
    and le: "val sg (pupper s) \<le> val sg (plower s)"
    and tc: "uint tc = (val sg (plower s) - val sg (pupper s)) div (- sint incr) + 1"
    and n: "n \<noteq> 0" and ge: "\<not> tc < ucast n" and two: "1 < tc"
    and nowrap: "val sg (i_maxmin_mn sg :: 'a word)
                   \<le> val sg (plower s) + uint t * (ceil_div (uint tc) (uint n) * sint incr)"
  defines "B \<equiv> ceil_div (uint tc) (uint n) * sint incr"
  shows "\<exists>s'. static_greedy sg t n incr tc s = Inr s'
           \<and> val sg (plower s') = val sg (plower s) + uint t * B
           \<and> val sg (pupper s') = max (val sg (pupper s)) (val sg (plower s) + uint t * B + B - sint incr)
           \<and> plastiter s' = map_option (\<lambda>_. of_bool
                 (val sg (pupper s) \<le> val sg (plower s) + uint t * B
                  \<and> val sg (plower s) + (uint t + 1) * B < val sg (pupper s))) (plastiter s)
           \<and> pstride s' = pstride s"
proof -
  define L U I T C where "L = val sg (plower s)" and "U = val sg (pupper s)"
    and "I = sint incr" and "T = uint t" and "C = ceil_div (uint tc) (uint n)"
  define vmax vmin where "vmax = val sg (i_maxmin_mx sg :: 'a word)"
    and "vmin = val sg (i_maxmin_mn sg :: 'a word)"
  note ni = neg_incr [OF neg]
  have B: "B = C * I" by (simp add: B_def C_def I_def)
  have I: "I < 0" "incr \<noteq> 0" "\<not> 0 <s incr"
    using ni by (simp_all add: I_def)
  have T: "0 \<le> T" by (simp add: T_def)
  note wc = word_ceil_div [OF len n ge]
  have nz: "(ucast n :: 'a word) \<noteq> 0"
    using n len by (auto simp: ucast_kmp_uint32_eq_0)
  have C: "1 \<le> C" "C \<le> uint tc"
    using ceil_div_bounds(1,2) [OF wc(2,3)] by (simp_all add: C_def)
  have span: "(uint tc - 1) * (- I) \<le> L - U"
  proof -
    have "0 < - I" using I(1) by simp
    then have "(L - U) div (- I) * (- I) \<le> L - U"
      by (rule div_mult_le_int)
    moreover have "uint tc - 1 = (L - U) div (- I)"
      unfolding tc L_def U_def I_def by simp
    ultimately show ?thesis by (simp only:)
  qed
  have "2 \<le> uint tc"
    using two by (simp add: word_less_alt)
  then have "1 * (- I) \<le> (uint tc - 1) * (- I)"
    using I(1) by (intro mult_right_mono) simp_all
  with span have IU: "- I \<le> L - U" by simp
  have "(C - 1) * (- I) \<le> (uint tc - 1) * (- I)"
    using C(2) I(1) by (intro mult_right_mono) simp_all
  moreover have "(C - 1) * (- I) = I - B"
    by (simp add: B algebra_simps)
  ultimately have BU: "I - B \<le> L - U"
    using span by simp
  have "1 * (- I) \<le> C * (- I)"
    using C(1) I(1) by (intro mult_right_mono) simp_all
  then have IB: "B \<le> I" by (simp add: B)
  have TB: "T * B \<le> 0"
    using T IB I(1) by (simp add: mult_nonneg_nonpos)
  have rng: "vmin \<le> L" "L \<le> vmax" "vmin \<le> U" "U \<le> vmax"
    using val_range [of sg "plower s"] val_range [of sg "pupper s"]
    by (simp_all add: L_def U_def vmax_def vmin_def)
  have sz: "vmax - vmin = 2 ^ LENGTH('a) - 1"
    unfolding vmax_def vmin_def by (rule mx_minus_mn)
  have nw: "vmin \<le> L + T * B"
    using nowrap by (simp add: L_def T_def B_def vmin_def)
  \<comment> \<open>the words\<close>
  define big lower upper0 upper1 last upper2 where
    "big = (tc div ucast n + (if tc mod ucast n \<noteq> 0 then 1 else 0)) * incr"
    and "lower = plower s + ucast t * big"
    and "upper0 = lower + big - incr"
    and "upper1 = (if T_less sg lower upper0 then i_maxmin_mn sg else upper0)"
    and "last = (T_le sg (pupper s) lower \<and> T_less sg upper1 (pupper s - incr))"
    and "upper2 = (if T_less sg upper1 (pupper s) then pupper s else upper1)"
  have res: "static_greedy sg t n incr tc s
               = Inr (set_last last (s\<lparr>plower := lower, pupper := upper2\<rparr>))"
    using I(3) nz
    by (simp add: static_greedy_def UT_div_def UT_mod_def bindF_def Let_def big_def lower_def
          upper0_def upper1_def upper2_def last_def)
  have wI: "word_of_int I = incr" and wL: "word_of_int L = plower s"
    and wU: "word_of_int U = pupper s"
    by (simp_all add: I_def L_def U_def word_of_int_val)
  have wT: "(word_of_int T :: 'a word) = ucast t"
    by (simp only: T_def ucast_eq)
  have "word_of_int B = word_of_int C * (word_of_int I :: 'a word)"
    unfolding B by (simp only: wi_hom_syms)
  then have big: "big = word_of_int B"
    unfolding big_def wc(1) C_def wI by simp
  have "word_of_int (L + T * B) = word_of_int L + word_of_int T * (word_of_int B :: 'a word)"
    by (simp only: wi_hom_syms)
  then have lower: "lower = word_of_int (L + T * B)"
    unfolding lower_def big wL wT by simp
  have vl: "val sg lower = L + T * B"
    unfolding lower using rng TB nw
    by (intro val_word_of_int) (simp_all add: vmin_def vmax_def)
  define M where "M = L + T * B + B - I"
  have "word_of_int M = word_of_int (L + T * B) + word_of_int B - (word_of_int I :: 'a word)"
    unfolding M_def by (simp only: wi_hom_syms)
  then have upper0: "upper0 = word_of_int M"
    unfolding upper0_def lower big wI by simp
  have M: "M \<le> L + T * B" "vmin - 2 ^ LENGTH('a) \<le> M"
    unfolding M_def using IB BU nw rng sz I(1) by linarith+
  have v1: "val sg upper1 = max M vmin"
  proof (cases "vmin \<le> M")
    case True
    then have "val sg upper0 = M"
      unfolding upper0 using M(1) rng TB
      by (intro val_word_of_int) (simp_all add: vmin_def vmax_def)
    then show ?thesis
      using True M(1) by (simp add: upper1_def T_less_val vl)
  next
    case False
    then have "val sg upper0 = M + 2 ^ LENGTH('a)"
      unfolding upper0 using M(2)
      by (intro val_word_of_int_wrap_down) (simp_all add: vmin_def)
    moreover have "L + T * B < M + 2 ^ LENGTH('a)"
      unfolding M_def using BU rng sz I(1) by linarith
    ultimately show ?thesis
      using False by (simp add: upper1_def T_less_val vl vmin_def)
  qed
  have "pupper s - incr = word_of_int (U - I)"
    unfolding wI [symmetric] wU [symmetric] by (simp only: wi_hom_syms)
  moreover have "val sg (word_of_int (U - I) :: 'a word) = U - I"
    using rng I(1) IU by (intro val_word_of_int) (simp_all add: vmin_def vmax_def)
  ultimately have vu: "val sg (pupper s - incr) = U - I" by simp
  have last: "last \<longleftrightarrow> U \<le> L + T * B \<and> L + (T + 1) * B < U"
  proof -
    have "max M vmin < U - I \<longleftrightarrow> L + (T + 1) * B < U"
      using rng I(1) by (auto simp: M_def algebra_simps)
    then show ?thesis
      by (simp add: last_def T_le_val T_less_val vl vu v1 U_def [symmetric])
  qed
  have v2: "val sg upper2 = max U M"
    using rng by (auto simp: upper2_def T_less_val v1 U_def [symmetric])
  show ?thesis
    unfolding res B [symmetric]
    using vl v2 last
    by (simp add: set_last_def L_def U_def T_def M_def I_def)
qed

subsection \<open>Legal loops\<close>

lemma legal_nonempty:
  assumes "legal sg incr lower upper"
  shows "incr \<noteq> 0" "\<not> zero_trip sg incr lower upper"
proof -
  show "incr \<noteq> 0"
    using assms by (auto simp: legal_def dest: sless_zero_neq sless_neg_neq split: if_splits)
  show "\<not> zero_trip sg incr lower upper"
    using assms by (auto simp: legal_def zero_trip_def T_less_val split: if_splits)
qed

lemma for_trip_count_legal:
  fixes incr lower upper :: "'a::len word"
  assumes len: "32 \<le> LENGTH('a)" and legal: "legal sg incr lower upper"
  shows "for_trip_count sg incr lower upper = Inr (word_of_int (trip_of sg incr lower upper))"
proof (cases "0 <s incr")
  case True
  then show ?thesis
    using for_trip_count_pos [OF len True, of sg lower upper] legal
    by (simp add: legal_def trip_of_def)
next
  case False
  then show ?thesis
    using for_trip_count_neg [OF len, of incr sg upper lower] legal
    by (simp add: legal_def trip_of_def)
qed

lemma trip_of_bounds:
  fixes incr lower upper :: "'a::len word"
  assumes "legal sg incr lower upper"
  shows "1 \<le> trip_of sg incr lower upper" "trip_of sg incr lower upper \<le> 2 ^ LENGTH('a)"
proof -
  have "1 \<le> trip_of sg incr lower upper \<and> trip_of sg incr lower upper \<le> 2 ^ LENGTH('a)"
  proof (cases "0 <s incr")
    case True
    then show ?thesis
      using trip_count_bounds [of "sint incr" sg lower upper] pos_incr(1) [OF True] assms
      by (simp add: legal_def trip_of_def)
  next
    case False
    then have "0 < - sint incr"
      using assms neg_incr(1) [of incr] by (simp add: legal_def)
    then show ?thesis
      using trip_count_bounds [of "- sint incr" sg upper lower] False assms
      by (simp add: legal_def trip_of_def)
  qed
  then show "1 \<le> trip_of sg incr lower upper" "trip_of sg incr lower upper \<le> 2 ^ LENGTH('a)"
    by simp_all
qed

lemma uint_trip_of:
  fixes incr lower upper tc :: "'a::len word"
  assumes len: "32 \<le> LENGTH('a)" and legal: "legal sg incr lower upper"
    and tc: "for_trip_count sg incr lower upper = Inr tc" and nz: "tc \<noteq> 0"
  shows "uint tc = trip_of sg incr lower upper"
proof -
  let ?n = "trip_of sg incr lower upper"
  have e: "tc = word_of_int ?n"
    using for_trip_count_legal [OF len legal] tc by simp
  have "?n \<noteq> 2 ^ LENGTH('a)"
  proof
    assume "?n = 2 ^ LENGTH('a)"
    then have "tc = word_of_int (2 ^ LENGTH('a))"
      by (simp only: e)
    then show False
      using nz by (simp only: word_of_int_2p_len)
  qed
  with trip_of_bounds [OF legal] have "0 \<le> ?n" "?n < 2 ^ LENGTH('a)" by simp_all
  then have "?n mod 2 ^ LENGTH('a) = ?n" by simp
  then show ?thesis
    unfolding e by (simp only: uint_word_of_int)
qed

lemma iterations_legal:
  fixes incr lower upper :: "'a::len word"
  assumes "legal sg incr lower upper"
  shows "iterations sg incr lower upper
           = (\<lambda>j. val sg lower + j * sint incr) ` {0 ..< trip_of sg incr lower upper}"
proof -
  have "{0 .. n} = {0 ..< n + 1}" for n :: int by auto
  then show ?thesis
    using assms by (auto simp: iterations_def legal_def trip_of_def)
qed

lemma window_quot:
  fixes I' D a C :: int
  assumes "0 < I'"
  shows "{0 .. (min (D - a * I') ((C - 1) * I')) div I'}
           = {k. 0 \<le> k \<and> k < C \<and> a + k \<le> D div I'}"
proof (rule set_eqI)
  fix k
  have "k \<le> (min (D - a * I') ((C - 1) * I')) div I'
          \<longleftrightarrow> k * I' \<le> D - a * I' \<and> k * I' \<le> (C - 1) * I'"
    using le_div_iff_int [OF assms, of k "min (D - a * I') ((C - 1) * I')"] by simp
  also have "k * I' \<le> D - a * I' \<longleftrightarrow> (a + k) * I' \<le> D"
    by (simp add: algebra_simps)
  also have "(a + k) * I' \<le> D \<longleftrightarrow> a + k \<le> D div I'"
    using le_div_iff_int [OF assms, of "a + k" D] by simp
  also have "k * I' \<le> (C - 1) * I' \<longleftrightarrow> k < C"
    using assms by simp
  finally show "k \<in> {0 .. (min (D - a * I') ((C - 1) * I')) div I'}
                  \<longleftrightarrow> k \<in> {k. 0 \<le> k \<and> k < C \<and> a + k \<le> D div I'}"
    by auto
qed

lemma window_reindex:
  fixes L I a C Q :: int
  shows "(\<lambda>k. (L + a * I) + k * I) ` {k. 0 \<le> k \<and> k < C \<and> a + k \<le> Q}
           = (\<lambda>j. L + j * I) ` {j. a \<le> j \<and> j < a + C \<and> j < Q + 1}"
    (is "?A = ?B")
proof (rule set_eqI)
  fix v
  show "v \<in> ?A \<longleftrightarrow> v \<in> ?B"
  proof
    assume "v \<in> ?A"
    then obtain k where k: "0 \<le> k" "k < C" "a + k \<le> Q" and v: "v = L + a * I + k * I"
      by auto
    have "v = L + (a + k) * I"
      using v by (simp add: algebra_simps)
    moreover have "a \<le> a + k" "a + k < a + C" "a + k < Q + 1"
      using k by simp_all
    ultimately show "v \<in> ?B" by blast
  next
    assume "v \<in> ?B"
    then obtain j where j: "a \<le> j" "j < a + C" "j < Q + 1" and v: "v = L + j * I"
      by auto
    define k where "k = j - a"
    have "0 \<le> k" "k < C" "a + k \<le> Q"
      using j by (simp_all add: k_def)
    moreover have "v = L + a * I + k * I"
      using v by (simp add: k_def algebra_simps)
    ultimately show "v \<in> ?A" by blast
  qed
qed

lemma static_greedy_legal:
  fixes incr tc :: "'a::len word"
  assumes len: "32 \<le> LENGTH('a)"
    and legal: "legal sg incr (plower s) (pupper s)"
    and tc: "uint tc = trip_of sg incr (plower s) (pupper s)"
    and n: "n \<noteq> 0" and ge: "\<not> tc < ucast n" and two: "1 < tc"
    and nowrap:
      "val sg (i_maxmin_mn sg :: 'a word)
         \<le> val sg (plower s) + uint t * (ceil_div (uint tc) (uint n) * sint incr)"
      "val sg (plower s) + uint t * (ceil_div (uint tc) (uint n) * sint incr)
         \<le> val sg (i_maxmin_mx sg :: 'a word)"
  defines "C \<equiv> ceil_div (uint tc) (uint n)"
  shows "\<exists>s'. static_greedy sg t n incr tc s = Inr s'
           \<and> val sg (plower s') = val sg (plower s) + uint t * C * sint incr
           \<and> plastiter s' = map_option (\<lambda>_. of_bool
                 (uint t * C < uint tc \<and> uint tc \<le> (uint t + 1) * C)) (plastiter s)
           \<and> pstride s' = pstride s
           \<and> iterations sg incr (plower s') (pupper s')
                = (\<lambda>j. val sg (plower s) + j * sint incr) `
                    {j. uint t * C \<le> j \<and> j < uint t * C + C \<and> j < uint tc}
           \<and> (uint t * C < uint tc \<longrightarrow>
                (if 0 <s incr then val sg (plower s') \<le> val sg (pupper s')
                 else val sg (pupper s') \<le> val sg (plower s')))"
proof -
  define L U I T where "L = val sg (plower s)" and "U = val sg (pupper s)"
    and "I = sint incr" and "T = uint t"
  define a where "a = T * C"
  note wc = word_ceil_div(2,3) [OF len n ge]
  have C1: "1 \<le> C"
    using ceil_div_bounds(1) [OF wc] by (simp add: C_def)
  have a0: "0 \<le> a"
    using C1 by (simp add: a_def T_def)
  have TB: "T * (C * I) = a * I" "(T + 1) * (C * I) = (a + C) * I"
    by (simp_all add: a_def algebra_simps)
  show ?thesis
  proof (cases "0 <s incr")
    case True
    have I: "0 < I" unfolding I_def using True by (rule pos_incr)
    have le: "L \<le> U"
      using legal True by (simp add: legal_def L_def U_def)
    have Q: "uint tc = (U - L) div I + 1"
      using tc True by (simp add: trip_of_def L_def U_def I_def)
    obtain s' where s': "static_greedy sg t n incr tc s = Inr s'"
      and lo: "val sg (plower s') = L + a * I"
      and up: "val sg (pupper s') = min U (L + a * I + C * I - I)"
      and fl: "plastiter s' = map_option (\<lambda>_. of_bool (L + a * I \<le> U \<and> U < L + (a + C) * I))
                 (plastiter s)"
      and st: "pstride s' = pstride s"
      using static_greedy_pos [OF len True le [unfolded L_def U_def] Q [unfolded L_def U_def I_def]
          n ge two nowrap(2)]
      unfolding C_def [symmetric] L_def [symmetric] U_def [symmetric] I_def [symmetric]
        T_def [symmetric] TB
      by blast
    have c: "L + x * I \<le> U \<longleftrightarrow> x < uint tc" for x
    proof -
      have "L + x * I \<le> U \<longleftrightarrow> x * I \<le> U - L" by linarith
      also have "\<dots> \<longleftrightarrow> x \<le> (U - L) div I" by (rule le_div_iff_int [OF I, symmetric])
      also have "\<dots> \<longleftrightarrow> x < uint tc" unfolding Q by linarith
      finally show ?thesis .
    qed
    have c1: "L + a * I \<le> U \<longleftrightarrow> a < uint tc"
      by (rule c)
    have c2: "U < L + (a + C) * I \<longleftrightarrow> uint tc \<le> a + C"
      using c [of "a + C"] by linarith
    have d: "min U (L + a * I + C * I - I) - (L + a * I) = min (U - L - a * I) ((C - 1) * I)"
      by (simp add: algebra_simps min_def)
    have "iterations sg incr (plower s') (pupper s')
            = (\<lambda>k. val sg (plower s') + k * I) `
                {0 .. (val sg (pupper s') - val sg (plower s')) div I}"
      using True by (simp add: iterations_def I_def)
    also have "\<dots> = (\<lambda>k. (L + a * I) + k * I) ` {0 .. (min (U - L - a * I) ((C - 1) * I)) div I}"
      unfolding lo up d ..
    also have "\<dots> = (\<lambda>k. (L + a * I) + k * I) ` {k. 0 \<le> k \<and> k < C \<and> a + k \<le> (U - L) div I}"
      by (simp only: window_quot [OF I])
    also have "\<dots> = (\<lambda>j. L + j * I) ` {j. a \<le> j \<and> j < a + C \<and> j < uint tc}"
      unfolding Q by (rule window_reindex)
    finally have it: "iterations sg incr (plower s') (pupper s')
            = (\<lambda>j. L + j * I) ` {j. a \<le> j \<and> j < a + C \<and> j < uint tc}" .
    have "C * I - I = (C - 1) * I"
      by (simp add: algebra_simps)
    moreover have "0 \<le> (C - 1) * I"
      using C1 I by simp
    ultimately have ne: "a < uint tc \<longrightarrow> val sg (plower s') \<le> val sg (pupper s')"
      using c1 by (simp add: lo up)
    show ?thesis
      using s' lo fl st it ne True c1 c2
      by (simp add: L_def U_def I_def a_def T_def algebra_simps)
  next
    case False
    have neg: "incr <s 0" "0 <s - incr"
      using legal False by (simp_all add: legal_def)
    have I: "0 < - I" unfolding I_def using neg_incr(1) [OF neg] by simp
    have le: "U \<le> L"
      using legal False by (simp add: legal_def L_def U_def)
    have Q: "uint tc = (L - U) div (- I) + 1"
      using tc False by (simp add: trip_of_def L_def U_def I_def)
    obtain s' where s': "static_greedy sg t n incr tc s = Inr s'"
      and lo: "val sg (plower s') = L + a * I"
      and up: "val sg (pupper s') = max U (L + a * I + C * I - I)"
      and fl: "plastiter s' = map_option (\<lambda>_. of_bool (U \<le> L + a * I \<and> L + (a + C) * I < U))
                 (plastiter s)"
      and st: "pstride s' = pstride s"
      using static_greedy_neg [OF len neg le [unfolded L_def U_def] Q [unfolded L_def U_def I_def]
          n ge two nowrap(1)]
      unfolding C_def [symmetric] L_def [symmetric] U_def [symmetric] I_def [symmetric]
        T_def [symmetric] TB
      by blast
    have c: "U \<le> L + x * I \<longleftrightarrow> x < uint tc" for x
    proof -
      have "x * (- I) = - (x * I)" by simp
      then have "U \<le> L + x * I \<longleftrightarrow> x * (- I) \<le> L - U" by linarith
      also have "\<dots> \<longleftrightarrow> x \<le> (L - U) div (- I)" by (rule le_div_iff_int [OF I, symmetric])
      also have "\<dots> \<longleftrightarrow> x < uint tc" unfolding Q by linarith
      finally show ?thesis .
    qed
    have c1: "U \<le> L + a * I \<longleftrightarrow> a < uint tc"
      by (rule c)
    have c2: "L + (a + C) * I < U \<longleftrightarrow> uint tc \<le> a + C"
      using c [of "a + C"] by linarith
    have d: "(L + a * I) - max U (L + a * I + C * I - I)
               = min (L - U - a * (- I)) ((C - 1) * (- I))"
      by (simp add: algebra_simps min_def max_def)
    have "iterations sg incr (plower s') (pupper s')
            = (\<lambda>k. val sg (plower s') + k * I) `
                {0 .. (val sg (plower s') - val sg (pupper s')) div (- I)}"
      using False neg(1) by (simp add: iterations_def I_def)
    also have "\<dots> = (\<lambda>k. (L + a * I) + k * I) `
                {0 .. (min (L - U - a * (- I)) ((C - 1) * (- I))) div (- I)}"
      unfolding lo up d ..
    also have "\<dots> = (\<lambda>k. (L + a * I) + k * I) ` {k. 0 \<le> k \<and> k < C \<and> a + k \<le> (L - U) div (- I)}"
      by (simp only: window_quot [OF I])
    also have "\<dots> = (\<lambda>j. L + j * I) ` {j. a \<le> j \<and> j < a + C \<and> j < uint tc}"
      unfolding Q by (rule window_reindex)
    finally have it: "iterations sg incr (plower s') (pupper s')
            = (\<lambda>j. L + j * I) ` {j. a \<le> j \<and> j < a + C \<and> j < uint tc}" .
    have "C * I - I = (C - 1) * I"
      by (simp add: algebra_simps)
    moreover have "(C - 1) * I \<le> 0"
      using C1 I by (simp add: mult_nonneg_nonpos)
    ultimately have ne: "a < uint tc \<longrightarrow> val sg (pupper s') \<le> val sg (plower s')"
      using c1 by (simp add: lo up)
    show ?thesis
      using s' lo fl st it ne False c1 c2
      by (simp add: L_def U_def I_def a_def T_def algebra_simps)
  qed
qed

text \<open>The value of iteration number \<open>j\<close> of a legal loop lies between the bounds.\<close>

lemma index_in_range:
  fixes incr lower upper :: "'a::len word"
  assumes legal: "legal sg incr lower upper"
    and j: "0 \<le> j" "j < trip_of sg incr lower upper"
  shows "val sg (i_maxmin_mn sg :: 'a word) \<le> val sg lower + j * sint incr"
    and "val sg lower + j * sint incr \<le> val sg (i_maxmin_mx sg :: 'a word)"
proof -
  define L U I where "L = val sg lower" and "U = val sg upper" and "I = sint incr"
  have rng: "val sg (i_maxmin_mn sg :: 'a word) \<le> L" "L \<le> val sg (i_maxmin_mx sg :: 'a word)"
    "val sg (i_maxmin_mn sg :: 'a word) \<le> U" "U \<le> val sg (i_maxmin_mx sg :: 'a word)"
    using val_range [of sg lower] val_range [of sg upper] by (simp_all add: L_def U_def)
  have "val sg (i_maxmin_mn sg :: 'a word) \<le> L + j * I \<and> L + j * I \<le> val sg (i_maxmin_mx sg :: 'a word)"
  proof (cases "0 <s incr")
    case True
    have I: "0 < I" unfolding I_def using True by (rule pos_incr)
    have "j \<le> (U - L) div I"
      using j(2) True by (simp add: trip_of_def L_def U_def I_def)
    then have "j * I \<le> U - L"
      by (simp add: le_div_iff_int [OF I])
    moreover have "0 \<le> j * I"
      using j(1) I by simp
    ultimately show ?thesis
      using rng by linarith
  next
    case False
    then have neg: "incr <s 0" "0 <s - incr"
      using legal by (simp_all add: legal_def)
    have I: "0 < - I" unfolding I_def using neg_incr(1) [OF neg] by simp
    have "j \<le> (L - U) div (- I)"
      using j(2) False by (simp add: trip_of_def L_def U_def I_def)
    then have "j * (- I) \<le> L - U"
      by (simp only: le_div_iff_int [OF I])
    moreover have "0 \<le> j * (- I)"
      using j(1) I by (intro mult_nonneg_nonneg) simp_all
    moreover have "j * (- I) = - (j * I)"
      by simp
    ultimately show ?thesis
      using rng by linarith
  qed
  then show "val sg (i_maxmin_mn sg :: 'a word) \<le> val sg lower + j * sint incr"
    and "val sg lower + j * sint incr \<le> val sg (i_maxmin_mx sg :: 'a word)"
    by (simp_all add: L_def I_def)
qed

lemma for_static_init_greedy:
  fixes incr chunk :: "'a::len word"
  assumes len: "32 \<le> LENGTH('a)"
    and legal: "legal sg incr (plower s) (pupper s)"
    and par: "\<not> t_serialized c" "1 < nth c"
    and sched: "schedtype = kmp_sch_static \<or> schedtype = kmp_distribute_static"
    and flavor: "kmp_static c = kmp_sch_static_greedy"
    and tc: "for_trip_count sg incr (plower s) (pupper s) = Inr trip_count"
    and ge: "\<not> trip_count < ucast (nth c)"
  shows "kmp_for_static_init sg c schedtype incr chunk s
           = static_greedy sg (tid c) (nth c) incr trip_count s"
    and "1 < trip_count" and "uint trip_count = trip_of sg incr (plower s) (pupper s)"
proof -
  have n1: "nth c \<noteq> 1" "nth c \<noteq> 0" using par(2) by auto
  show two: "1 < trip_count"
    using ge par(2) uint_ucast_kmp_uint32 [OF len, of "nth c"] by (simp add: word_less_alt)
  then have n0: "trip_count \<noteq> 0" by auto
  show "uint trip_count = trip_of sg incr (plower s) (pupper s)"
    using uint_trip_of [OF len legal tc n0] .
  show "kmp_for_static_init sg c schedtype incr chunk s
           = static_greedy sg (tid c) (nth c) incr trip_count s"
    using for_static_init_static [of incr sg s c schedtype trip_count chunk]
      legal_nonempty [OF legal] par(1) n1(1) sched tc n0 ge flavor
    by simp
qed

text \<open>
  C2.  In the greedy branch of a legal loop (more than one thread, a trip count of at
  least the number of threads) the upper bound returned is the computed
  \<open>upper_i = lower_i + big_chunk_inc_count - incr\<close>, replaced by the maximum of the type
  when it lies below \<open>lower_i\<close> and then by the upper bound of the loop when it exceeds
  that; for a negative increment the same with the minimum of the type and the
  comparisons reversed.  A thread that has iterations
  (\<open>tid * \<lceil>trip_count / nth\<rceil> < trip_count\<close>) never gets \<open>upper < lower\<close>
  (\<open>lower < upper\<close> for a negative increment).  In the instance of the witness
  \<open>upper_i\<close> wraps: \<open>0x7FFFFFFA + 15 - 5\<close> is below \<open>0x7FFFFFFA\<close>, and the thread gets
  [0x7FFFFFFA, 0x7FFFFFFF].
\<close>

theorem greedy_upper_clamp:
  fixes incr chunk :: "'a::len word"
  assumes len: "32 \<le> LENGTH('a)"
    and legal: "legal sg incr (plower s) (pupper s)"
    and par: "\<not> t_serialized c" "1 < nth c"
    and sched: "schedtype = kmp_sch_static \<or> schedtype = kmp_distribute_static"
    and flavor: "kmp_static c = kmp_sch_static_greedy"
    and tc: "for_trip_count sg incr (plower s) (pupper s) = Inr trip_count"
    and ge: "\<not> trip_count < ucast (nth c)"
  shows "\<exists>s'. kmp_for_static_init sg c schedtype incr chunk s = Inr s'
          \<and> pupper s' =
              (let big = (trip_count div ucast (nth c)
                           + (if trip_count mod ucast (nth c) \<noteq> 0 then 1 else 0)) * incr;
                   lower_i = plower s + ucast (tid c) * big;
                   upper_i = lower_i + big - incr
               in if 0 <s incr
                  then let u = (if T_less sg upper_i lower_i then i_maxmin_mx sg else upper_i)
                       in if T_less sg (pupper s) u then pupper s else u
                  else let u = (if T_less sg lower_i upper_i then i_maxmin_mn sg else upper_i)
                       in if T_less sg u (pupper s) then pupper s else u)
          \<and> (uint (tid c) * ceil_div (uint trip_count) (uint (nth c)) < uint trip_count \<longrightarrow>
                (if 0 <s incr then T_le sg (plower s') (pupper s')
                 else T_le sg (pupper s') (plower s')))"
proof -
  note g = for_static_init_greedy(1) [OF len legal par sched flavor tc ge, of chunk]
    for_static_init_greedy(2,3) [OF len legal par sched flavor tc ge]
  have nn: "nth c \<noteq> 0" using par(2) by auto
  have nz: "(ucast (nth c) :: 'a word) \<noteq> 0"
    using nn len by (simp add: ucast_kmp_uint32_eq_0)
  define C where "C = ceil_div (uint trip_count) (uint (nth c))"
  define big lower_i upper_i u_pos u_neg upper2 last where
    "big = (trip_count div ucast (nth c)
              + (if trip_count mod ucast (nth c) \<noteq> 0 then 1 else 0)) * incr"
    and "lower_i = plower s + ucast (tid c) * big"
    and "upper_i = lower_i + big - incr"
    and "u_pos = (if T_less sg upper_i lower_i then i_maxmin_mx sg else upper_i)"
    and "u_neg = (if T_less sg lower_i upper_i then i_maxmin_mn sg else upper_i)"
    and "upper2 = (if 0 <s incr then (if T_less sg (pupper s) u_pos then pupper s else u_pos)
                   else (if T_less sg u_neg (pupper s) then pupper s else u_neg))"
    and "last = (if 0 <s incr
                 then T_le sg lower_i (pupper s) \<and> T_less sg (pupper s - incr) u_pos
                 else T_le sg (pupper s) lower_i \<and> T_less sg u_neg (pupper s - incr))"
  define s' where "s' = set_last last (s\<lparr>plower := lower_i, pupper := upper2\<rparr>)"
  have s': "static_greedy sg (tid c) (nth c) incr trip_count s = Inr s'"
    using nz
    by (simp add: static_greedy_def UT_div_def UT_mod_def bindF_def Let_def big_def lower_i_def
          upper_i_def u_pos_def u_neg_def upper2_def last_def s'_def)
  have "pupper s' = upper2"
    by (simp add: s'_def set_last_def)
  also have "upper2 =
              (let big = (trip_count div ucast (nth c)
                           + (if trip_count mod ucast (nth c) \<noteq> 0 then 1 else 0)) * incr;
                   lower_i = plower s + ucast (tid c) * big;
                   upper_i = lower_i + big - incr
               in if 0 <s incr
                  then let u = (if T_less sg upper_i lower_i then i_maxmin_mx sg else upper_i)
                       in if T_less sg (pupper s) u then pupper s else u
                  else let u = (if T_less sg lower_i upper_i then i_maxmin_mn sg else upper_i)
                       in if T_less sg u (pupper s) then pupper s else u)"
    by (simp add: Let_def big_def lower_i_def upper_i_def u_pos_def u_neg_def upper2_def)
  finally have f: "pupper s' =
              (let big = (trip_count div ucast (nth c)
                           + (if trip_count mod ucast (nth c) \<noteq> 0 then 1 else 0)) * incr;
                   lower_i = plower s + ucast (tid c) * big;
                   upper_i = lower_i + big - incr
               in if 0 <s incr
                  then let u = (if T_less sg upper_i lower_i then i_maxmin_mx sg else upper_i)
                       in if T_less sg (pupper s) u then pupper s else u
                  else let u = (if T_less sg lower_i upper_i then i_maxmin_mn sg else upper_i)
                       in if T_less sg u (pupper s) then pupper s else u)" .
  have ne: "if 0 <s incr then T_le sg (plower s') (pupper s') else T_le sg (pupper s') (plower s')"
    if *: "uint (tid c) * C < uint trip_count"
  proof -
    have C1: "1 \<le> C"
      using ceil_div_bounds(1) [OF word_ceil_div(2,3) [OF len nn ge]] by (simp add: C_def)
    then have "0 \<le> uint (tid c) * C" by simp
    then have "val sg (i_maxmin_mn sg :: 'a word) \<le> val sg (plower s) + uint (tid c) * C * sint incr"
      "val sg (plower s) + uint (tid c) * C * sint incr \<le> val sg (i_maxmin_mx sg :: 'a word)"
      using index_in_range [OF legal, of "uint (tid c) * C"] * g(3) by simp_all
    then have "\<exists>s''. static_greedy sg (tid c) (nth c) incr trip_count s = Inr s''
       \<and> (uint (tid c) * C < uint trip_count \<longrightarrow>
                (if 0 <s incr then val sg (plower s'') \<le> val sg (pupper s'')
                 else val sg (pupper s'') \<le> val sg (plower s'')))"
      using static_greedy_legal [OF len legal g(3) nn ge g(2), of "tid c"]
      unfolding C_def [symmetric] by (simp only: mult.assoc) blast
    then show ?thesis
      using s' * by (auto simp: T_le_val)
  qed
  show ?thesis
    unfolding g(1) s' using f ne unfolding C_def by blast
qed

theorem greedy_upper_clamp_witness:
  "legal True (5 :: 32 word) 0x7FFFFFEB 0x7FFFFFFF
   \<and> for_trip_count True (5 :: 32 word) 0x7FFFFFEB 0x7FFFFFFF = Inr 5
   \<and> T_less True ((0x7FFFFFFA :: 32 word) + 15 - 5) 0x7FFFFFFA
   \<and> kmp_for_static_init True (ctx0\<lparr>tid := 1, nth := 2\<rparr>) kmp_sch_static (5 :: 32 word) 0
        (cells0 0x7FFFFFEB 0x7FFFFFFF)
       = Inr \<lparr>plastiter = Some 1, plower = 0x7FFFFFFA, pupper = 0x7FFFFFFF, pstride = 0\<rparr>
   \<and> T_le True (0x7FFFFFFA :: 32 word) 0x7FFFFFFF"
proof -
  have l: "legal True (5 :: 32 word) 0x7FFFFFEB 0x7FFFFFFF"
    by (simp add: legal_def val_def word_sless_alt)
  have t: "for_trip_count True (5 :: 32 word) 0x7FFFFFEB 0x7FFFFFFF = Inr 5"
    by (simp add: for_trip_count_def T_div_def ST_div_def bindF_def word_sless_alt
          signed_divide_int_def)
  have r: "kmp_for_static_init True (ctx0\<lparr>tid := 1, nth := 2\<rparr>) kmp_sch_static (5 :: 32 word) 0
        (cells0 0x7FFFFFEB 0x7FFFFFFF)
       = Inr \<lparr>plastiter = Some 1, plower = 0x7FFFFFFA, pupper = 0x7FFFFFFF, pstride = 0\<rparr>"
    by (simp add: kmp_for_static_init_def ctx0_def cells0_def zero_trip_def T_less_def T_le_def
          for_trip_count_def T_div_def ST_div_def static_greedy_def bindF_def UT_div_def
          UT_mod_def set_last_def i_maxmin_mx_def Let_def word_sless_alt word_sle_eq
          signed_divide_int_def)
  have c: "ceil_div 5 2 = 3"
    by (simp add: ceil_div_def)
  have "T_le True (0x7FFFFFFA :: 32 word) 0x7FFFFFFF"
    using greedy_upper_clamp [where incr = "5 :: 32 word" and sg = True
        and s = "cells0 0x7FFFFFEB 0x7FFFFFFF" and c = "ctx0\<lparr>tid := 1, nth := 2\<rparr>"
        and schedtype = kmp_sch_static and trip_count = 5 and chunk = 0] l t r c
    by (simp add: ctx0_def cells0_def word_sless_alt)
  moreover have "T_less True ((0x7FFFFFFA :: 32 word) + 15 - 5) 0x7FFFFFFA"
    by (simp add: T_less_def word_sless_alt)
  ultimately show ?thesis
    using l t r by simp
qed

subsection \<open>The balanced schedule\<close>

lemma static_balanced_eq:
  fixes incr tc :: "'a::len word"
  assumes "(ucast n :: 'a word) \<noteq> 0"
  shows "static_balanced t n incr tc s =
           (let small_chunk = tc div ucast n;
                extras = tc mod ucast n;
                lower_i = plower s + incr * (ucast t * small_chunk
                            + (if ucast t < extras then ucast t else extras))
            in Inr \<lparr>plastiter = map_option (\<lambda>_. of_bool (t = n - 1)) (plastiter s),
                     plower = lower_i,
                     pupper = lower_i + small_chunk * incr - (if ucast t < extras then 0 else incr),
                     pstride = pstride s\<rparr>)"
  using assms
  by (simp add: static_balanced_def UT_div_def UT_mod_def bindF_def set_last_def Let_def)

text \<open>The balanced branch, in integers.\<close>

lemma static_balanced_legal:
  fixes incr tc :: "'a::len word"
  assumes len: "32 \<le> LENGTH('a)"
    and legal: "legal sg incr (plower s) (pupper s)"
    and tc: "uint tc = trip_of sg incr (plower s) (pupper s)"
    and n: "n \<noteq> 0" and ge: "\<not> tc < ucast n" and t: "t < n"
  defines "q \<equiv> uint tc div uint n" and "r \<equiv> uint tc mod uint n"
  defines "off \<equiv> uint t * q + min (uint t) r"
    and "sz \<equiv> q + (if uint t < r then 1 else 0)"
  shows "\<exists>s'. static_balanced t n incr tc s = Inr s'
           \<and> val sg (plower s') = val sg (plower s) + off * sint incr
           \<and> val sg (pupper s') = val sg (plower s) + (off + sz - 1) * sint incr
           \<and> iterations sg incr (plower s') (pupper s')
                = (\<lambda>j. val sg (plower s) + j * sint incr) ` {off ..< off + sz}"
    and "0 \<le> off" and "1 \<le> sz" and "off + sz \<le> uint tc"
proof -
  define L I T N TC where "L = val sg (plower s)" and "I = sint incr" and "T = uint t"
    and "N = uint n" and "TC = uint tc"
  note wc = word_ceil_div(2,3) [OF len n ge, folded N_def TC_def]
  have un: "uint (ucast n :: 'a word) = N" "uint (ucast t :: 'a word) = T"
    by (simp_all add: uint_ucast_kmp_uint32 [OF len] N_def T_def)
  have nz: "(ucast n :: 'a word) \<noteq> 0"
    using n len by (simp add: ucast_kmp_uint32_eq_0)
  have TN: "0 \<le> T" "T + 1 \<le> N"
    using t by (simp_all add: T_def N_def word_less_alt)
  have TCeq: "TC = N * q + r"
    by (simp add: q_def r_def TC_def N_def)
  have r: "0 \<le> r" "r < N"
    using wc(1) by (simp_all add: r_def N_def)
  have q: "1 \<le> q"
    using wc zdiv_mono1 [of N TC N] by (simp add: q_def N_def TC_def)
  show off0: "0 \<le> off"
    using TN(1) q r(1) by (simp add: off_def T_def [symmetric])
  show sz1: "1 \<le> sz"
    using q by (simp add: sz_def)
  have "(T + 1) * q \<le> N * q"
    using TN(2) q by (intro mult_right_mono) simp_all
  moreover have "(T + 1) * q = T * q + q"
    by (simp add: algebra_simps)
  ultimately have Tq: "T * q + q \<le> N * q"
    by simp
  have "off + sz \<le> TC"
  proof (cases "T < r")
    case True
    then have "off = T * q + T" "sz = q + 1"
      by (simp_all add: off_def sz_def T_def)
    then show ?thesis
      using Tq TCeq True by linarith
  next
    case False
    then have "off = T * q + r" "sz = q"
      by (simp_all add: off_def sz_def T_def)
    then show ?thesis
      using Tq TCeq by linarith
  qed
  then show top: "off + sz \<le> uint tc"
    by (simp add: TC_def)
  \<comment> \<open>the words\<close>
  define small extras lower upper where "small = tc div ucast n" and "extras = tc mod ucast n"
    and "lower = plower s + incr * (ucast t * small + (if ucast t < extras then ucast t else extras))"
    and "upper = lower + small * incr - (if ucast t < extras then 0 else incr)"
  define s' where "s' = \<lparr>plastiter = map_option (\<lambda>_. of_bool (t = n - 1)) (plastiter s),
                     plower = lower, pupper = upper, pstride = pstride s\<rparr>"
  have res: "static_balanced t n incr tc s = Inr s'"
    unfolding static_balanced_eq [OF nz]
    by (simp add: Let_def small_def extras_def lower_def upper_def s'_def)
  have us: "uint small = q" "uint extras = r"
    by (simp_all add: small_def extras_def uint_div uint_mod un q_def r_def N_def)
  have lt: "ucast t < extras \<longleftrightarrow> T < r"
    by (simp add: word_less_alt un us)
  have wI: "word_of_int I = incr" and wL: "word_of_int L = plower s"
    by (simp_all add: I_def L_def word_of_int_val)
  have wT: "(word_of_int T :: 'a word) = ucast t"
    by (simp only: T_def ucast_eq)
  have wq: "word_of_int q = small" and wr: "word_of_int r = extras"
    using us by (metis word_of_int_uint)+
  have wm: "(word_of_int (min T r) :: 'a word) = (if ucast t < extras then ucast t else extras)"
    using lt wT wr by (simp add: min_def)
  have "word_of_int (L + off * I)
          = word_of_int L + word_of_int I * (word_of_int T * word_of_int q
              + (word_of_int (min T r) :: 'a word))"
    unfolding off_def T_def [symmetric] by (simp only: wi_hom_syms mult.commute)
  then have lower: "lower = word_of_int (L + off * I)"
    unfolding wL wI wT wq wm lower_def by simp
  have szI: "(off + sz - 1) * I = off * I + q * I - (if T < r then 0 else I)"
    by (simp add: sz_def T_def algebra_simps)
  have "word_of_int (L + (off + sz - 1) * I)
          = word_of_int (L + off * I) + word_of_int q * word_of_int I
              - (if T < r then 0 else (word_of_int I :: 'a word))"
    unfolding szI by (simp add: wi_hom_syms)
  then have upper: "upper = word_of_int (L + (off + sz - 1) * I)"
    unfolding upper_def lower wq wI lt by simp
  have vl: "val sg lower = L + off * I"
    unfolding lower L_def I_def
    using index_in_range [OF legal, of off] off0 sz1 top tc by (intro val_word_of_int) simp_all
  have vu: "val sg upper = L + (off + sz - 1) * I"
    unfolding upper L_def I_def
    using index_in_range [OF legal, of "off + sz - 1"] off0 sz1 top tc
    by (intro val_word_of_int) simp_all
  have it: "iterations sg incr lower upper = (\<lambda>j. L + j * I) ` {off ..< off + sz}"
  proof -
    have d: "(L + (off + sz - 1) * I) - (L + off * I) = (sz - 1) * I"
      "(L + off * I) - (L + (off + sz - 1) * I) = (sz - 1) * (- I)"
      by (simp_all add: algebra_simps)
    have I0: "(0 <s incr \<and> 0 < I) \<or> (\<not> 0 <s incr \<and> incr <s 0 \<and> I < 0)"
      using legal pos_incr(1) [of incr] neg_incr(1) [of incr]
      by (auto simp: legal_def I_def split: if_splits)
    have "iterations sg incr lower upper = (\<lambda>k. (L + off * I) + k * I) ` {0 .. sz - 1}"
      using I0 unfolding iterations_def vl vu I_def [symmetric] d by auto
    also have "\<dots> = (\<lambda>k. (L + off * I) + k * I) ` {k. 0 \<le> k \<and> k < sz \<and> off + k \<le> off + sz - 1}"
      by (intro arg_cong [where f = "\<lambda>A. _ ` A"]) auto
    also have "\<dots> = (\<lambda>j. L + j * I) ` {j. off \<le> j \<and> j < off + sz \<and> j < off + sz - 1 + 1}"
      by (rule window_reindex)
    also have "\<dots> = (\<lambda>j. L + j * I) ` {off ..< off + sz}"
      by (intro arg_cong [where f = "\<lambda>A. _ ` A"]) auto
    finally show ?thesis .
  qed
  show "\<exists>s'. static_balanced t n incr tc s = Inr s'
           \<and> val sg (plower s') = val sg (plower s) + off * sint incr
           \<and> val sg (pupper s') = val sg (plower s) + (off + sz - 1) * sint incr
           \<and> iterations sg incr (plower s') (pupper s')
                = (\<lambda>j. val sg (plower s) + j * sint incr) ` {off ..< off + sz}"
    using res vl vu it by (simp add: s'_def L_def I_def)
qed

text \<open>
  The balanced branch in terms of the counter \<open>trip_count\<close> of the routine: the result in
  the arithmetic of the type, and the number of iterations of a thread on a legal loop.
\<close>

lemma for_static_init_balanced:
  fixes incr chunk :: "'a::len word"
  assumes len: "32 \<le> LENGTH('a)"
    and incr: "incr \<noteq> 0"
    and nz: "\<not> zero_trip sg incr (plower s) (pupper s)"
    and par: "\<not> t_serialized c" "1 < nth c"
    and sched: "schedtype = kmp_sch_static \<or> schedtype = kmp_distribute_static"
    and flavor: "kmp_static c = kmp_sch_static_balanced"
    and tc: "for_trip_count sg incr (plower s) (pupper s) = Inr trip_count"
    and ge: "\<not> trip_count < ucast (nth c)"
  shows "kmp_for_static_init sg c schedtype incr chunk s =
           (let small_chunk = trip_count div ucast (nth c);
                extras = trip_count mod ucast (nth c);
                lower_i = plower s + incr * (ucast (tid c) * small_chunk
                            + (if ucast (tid c) < extras then ucast (tid c) else extras))
            in Inr \<lparr>plastiter = map_option (\<lambda>_. of_bool (tid c = nth c - 1)) (plastiter s),
                     plower = lower_i,
                     pupper = lower_i + small_chunk * incr
                                - (if ucast (tid c) < extras then 0 else incr),
                     pstride = pstride s\<rparr>)
       \<and> (legal sg incr (plower s) (pupper s) \<and> tid c < nth c \<longrightarrow>
            (\<exists>s'. kmp_for_static_init sg c schedtype incr chunk s = Inr s'
               \<and> card (iterations sg incr (plower s') (pupper s'))
                    = unat (trip_count div ucast (nth c))
                        + (if ucast (tid c) < trip_count mod ucast (nth c) then 1 else 0)))"
proof -
  have n1: "nth c \<noteq> 1" "nth c \<noteq> 0" using par(2) by auto
  have nzw: "(ucast (nth c) :: 'a word) \<noteq> 0"
    using n1(2) len by (simp add: ucast_kmp_uint32_eq_0)
  have two: "1 < trip_count"
    using ge par(2) uint_ucast_kmp_uint32 [OF len, of "nth c"] by (simp add: word_less_alt)
  then have n0: "trip_count \<noteq> 0" by auto
  have eq: "kmp_for_static_init sg c schedtype incr chunk s
              = static_balanced (tid c) (nth c) incr trip_count s"
    using for_static_init_static [of incr sg s c schedtype trip_count chunk]
      incr nz par(1) n1(1) sched tc n0 ge flavor
    by simp
  have cnt: "\<exists>s'. static_balanced (tid c) (nth c) incr trip_count s = Inr s'
               \<and> card (iterations sg incr (plower s') (pupper s'))
                    = unat (trip_count div ucast (nth c))
                        + (if ucast (tid c) < trip_count mod ucast (nth c) then 1 else 0)"
    if legal: "legal sg incr (plower s) (pupper s)" and t: "tid c < nth c"
  proof -
    define q r where "q = uint trip_count div uint (nth c)"
      and "r = uint trip_count mod uint (nth c)"
    define off sz where "off = uint (tid c) * q + min (uint (tid c)) r"
      and "sz = q + (if uint (tid c) < r then 1 else 0)"
    note u = uint_trip_of [OF len legal tc n0]
    note b = static_balanced_legal [OF len legal u n1(2) ge t, folded q_def r_def,
        folded off_def sz_def]
    obtain s' where s': "static_balanced (tid c) (nth c) incr trip_count s = Inr s'"
      and it: "iterations sg incr (plower s') (pupper s')
                = (\<lambda>j. val sg (plower s) + j * sint incr) ` {off ..< off + sz}"
      using b(1) by blast
    have "sint incr \<noteq> 0"
      using legal pos_incr(1) [of incr] neg_incr(1) [of incr]
      by (auto simp: legal_def split: if_splits)
    then have "inj (\<lambda>j. val sg (plower s) + j * sint incr)"
      by (auto simp: inj_on_def)
    then have "card (iterations sg incr (plower s') (pupper s')) = card {off ..< off + sz}"
      unfolding it by (intro card_image) (auto simp: inj_on_def)
    also have "\<dots> = nat sz"
      by simp
    also have "sz = uint (trip_count div ucast (nth c))
                      + (if ucast (tid c) < trip_count mod ucast (nth c) then 1 else 0)"
      by (simp add: sz_def q_def r_def uint_div uint_mod word_less_alt
            uint_ucast_kmp_uint32 [OF len])
    also have "nat \<dots> = unat (trip_count div ucast (nth c))
                      + (if ucast (tid c) < trip_count mod ucast (nth c) then 1 else 0)"
      by (simp add: nat_add_distrib)
    finally show ?thesis
      using s' by blast
  qed
  show ?thesis
    unfolding eq using static_balanced_eq [OF nzw, of "tid c" incr trip_count s] cnt by blast
qed

subsection \<open>Greedy starts that wrap around\<close>

text \<open>A thread whose start wraps around is past the last iteration, and is not flagged.\<close>

lemma greedy_wrap_bounds:
  fixes I L U S :: int
  assumes I: "0 < I" and C: "1 \<le> C" and cb: "N * (C - 1) < TC"
    and N: "1 \<le> N" "N \<le> TC" and T: "0 \<le> T" "T \<le> N - 1"
    and span: "(TC - 1) * I \<le> U - L" and sz: "U - L \<le> S - 1"
    and wrap: "U < L + T * (C * I)"
  shows "TC \<le> T * C" and "L + (T + 1) * (C * I) \<le> U + S - 1"
proof -
  have e: "T * (C * I) = (T * C) * I" "(T + 1) * (C * I) = ((T + 1) * C) * I"
    by (simp_all add: algebra_simps)
  have "(TC - 1) * I < (T * C) * I"
    using wrap span unfolding e by linarith
  then have "TC - 1 < T * C"
    using I by (simp add: mult_less_cancel_right_pos)
  then show TC: "TC \<le> T * C" by simp
  have k1: "N * C \<le> N * (C - 1) + N"
    by (simp add: algebra_simps)
  have NC: "(T + 1) * C \<le> N * C"
    using T C by (intro mult_right_mono) simp_all
  have "N \<le> TC - 1"
  proof (cases "C = 1")
    case True
    then show ?thesis using TC T N by simp
  next
    case False
    then have "N * 1 \<le> N * (C - 1)"
      using C N by (intro mult_left_mono) simp_all
    then show ?thesis using cb by simp
  qed
  then have "N * I \<le> (TC - 1) * I"
    using I by (intro mult_right_mono) simp_all
  moreover have "((T + 1) * C) * I \<le> (TC + N - 1) * I"
    using NC k1 cb I by (intro mult_right_mono) simp_all
  moreover have "(TC + N - 1) * I = (TC - 1) * I + N * I"
    by (simp add: algebra_simps)
  ultimately have "((T + 1) * C) * I \<le> (U - L) + (U - L)"
    using span by linarith
  then show "L + (T + 1) * (C * I) \<le> U + S - 1"
    unfolding e using sz by linarith
qed

lemma static_greedy_pos_wrap:
  fixes incr tc :: "'a::len word"
  assumes len: "32 \<le> LENGTH('a)"
    and pos: "0 <s incr"
    and le: "val sg (plower s) \<le> val sg (pupper s)"
    and tc: "uint tc = (val sg (pupper s) - val sg (plower s)) div sint incr + 1"
    and n: "n \<noteq> 0" and ge: "\<not> tc < ucast n" and two: "1 < tc" and t: "t < n"
    and wrap: "val sg (i_maxmin_mx sg :: 'a word)
                 < val sg (plower s) + uint t * (ceil_div (uint tc) (uint n) * sint incr)"
  shows "\<exists>s'. static_greedy sg t n incr tc s = Inr s'
           \<and> plastiter s' = map_option (\<lambda>_. 0) (plastiter s)"
    and "uint tc \<le> uint t * ceil_div (uint tc) (uint n)"
proof -
  define L U I T C where "L = val sg (plower s)" and "U = val sg (pupper s)"
    and "I = sint incr" and "T = uint t" and "C = ceil_div (uint tc) (uint n)"
  define B where "B = C * I"
  define vmax vmin where "vmax = val sg (i_maxmin_mx sg :: 'a word)"
    and "vmin = val sg (i_maxmin_mn sg :: 'a word)"
  define S :: int where "S = 2 ^ LENGTH('a)"
  have I: "0 < I" "incr \<noteq> 0"
    using pos pos_incr(1) [of incr] by (auto simp: I_def dest: sless_zero_neq)
  have T: "0 \<le> T" "T \<le> uint n - 1"
    using t by (simp_all add: T_def word_less_alt)
  note wc = word_ceil_div [OF len n ge]
  have nz: "(ucast n :: 'a word) \<noteq> 0"
    using n len by (auto simp: ucast_kmp_uint32_eq_0)
  note cb = ceil_div_bounds(1,4) [OF wc(2,3), folded C_def]
  have span: "(uint tc - 1) * I \<le> U - L"
    unfolding tc L_def U_def I_def using I(1) [unfolded I_def]
    by (simp add: div_mult_le_int)
  have "2 \<le> uint tc"
    using two by (simp add: word_less_alt)
  then have "1 * I \<le> (uint tc - 1) * I"
    using I(1) by (intro mult_right_mono) simp_all
  with span have IU: "I \<le> U - L" by simp
  have "1 * I \<le> C * I"
    using cb(1) I(1) by (intro mult_right_mono) simp_all
  then have IB: "I \<le> B" by (simp add: B_def)
  have rng: "vmin \<le> L" "L \<le> vmax" "vmin \<le> U" "U \<le> vmax"
    using val_range [of sg "plower s"] val_range [of sg "pupper s"]
    by (simp_all add: L_def U_def vmax_def vmin_def)
  have sz: "vmax - vmin = S - 1"
    unfolding vmax_def vmin_def S_def by (rule mx_minus_mn)
  have UL: "U - L \<le> S - 1"
    using rng sz by linarith
  define X where "X = L + T * B"
  have wr: "vmax < X"
    using wrap by (simp add: X_def L_def T_def B_def C_def I_def vmax_def)
  then have UX: "U < L + T * (C * I)"
    using rng by (simp add: X_def B_def)
  note gb = greedy_wrap_bounds [OF I(1) cb wc(2,3) T span UL UX]
  show "uint tc \<le> uint t * ceil_div (uint tc) (uint n)"
    using gb(1) by (simp add: T_def C_def)
  have Y: "X + B \<le> U + S - 1"
    using gb(2) by (simp add: X_def B_def algebra_simps)
  \<comment> \<open>the words\<close>
  define big lower upper0 upper1 last upper2 where
    "big = (tc div ucast n + (if tc mod ucast n \<noteq> 0 then 1 else 0)) * incr"
    and "lower = plower s + ucast t * big"
    and "upper0 = lower + big - incr"
    and "upper1 = (if T_less sg upper0 lower then i_maxmin_mx sg else upper0)"
    and "last = (T_le sg lower (pupper s) \<and> T_less sg (pupper s - incr) upper1)"
    and "upper2 = (if T_less sg (pupper s) upper1 then pupper s else upper1)"
  have res: "static_greedy sg t n incr tc s
               = Inr (set_last last (s\<lparr>plower := lower, pupper := upper2\<rparr>))"
    using pos nz
    by (simp add: static_greedy_def UT_div_def UT_mod_def bindF_def Let_def big_def lower_def
          upper0_def upper1_def upper2_def last_def)
  have wI: "word_of_int I = incr" and wL: "word_of_int L = plower s"
    and wU: "word_of_int U = pupper s"
    by (simp_all add: I_def L_def U_def word_of_int_val)
  have wT: "(word_of_int T :: 'a word) = ucast t"
    by (simp only: T_def ucast_eq)
  have "word_of_int B = word_of_int C * (word_of_int I :: 'a word)"
    unfolding B_def by (simp only: wi_hom_syms)
  then have big: "big = word_of_int B"
    unfolding big_def wc(1) C_def wI by simp
  have "word_of_int X = word_of_int L + word_of_int T * (word_of_int B :: 'a word)"
    unfolding X_def by (simp only: wi_hom_syms)
  then have lower: "lower = word_of_int X"
    unfolding lower_def big wL wT by simp
  have "X \<le> vmax + S"
    using Y IB I(1) rng by linarith
  then have vl: "val sg lower = X - S"
    unfolding lower S_def using wr
    by (intro val_word_of_int_wrap) (simp_all add: vmax_def)
  define M where "M = X + B - I"
  have "word_of_int M = word_of_int X + word_of_int B - (word_of_int I :: 'a word)"
    unfolding M_def by (simp only: wi_hom_syms)
  then have upper0: "upper0 = word_of_int M"
    unfolding upper0_def lower big wI by simp
  have M: "vmax < M" "M \<le> vmax + S" "X \<le> M"
    unfolding M_def using wr IB Y I(1) rng by linarith+
  have v0: "val sg upper0 = M - S"
    unfolding upper0 S_def using M(1,2)
    by (intro val_word_of_int_wrap) (simp_all add: vmax_def S_def)
  have v1: "val sg upper1 = M - S"
    using M(3) by (simp add: upper1_def T_less_val vl v0)
  have "pupper s - incr = word_of_int (U - I)"
    unfolding wI [symmetric] wU [symmetric] by (simp only: wi_hom_syms)
  moreover have "val sg (word_of_int (U - I) :: 'a word) = U - I"
    using rng I(1) IU by (intro val_word_of_int) (simp_all add: vmin_def vmax_def)
  ultimately have vu: "val sg (pupper s - incr) = U - I" by simp
  have "\<not> U - I < M - S"
    unfolding M_def using Y by linarith
  then have last: "\<not> last"
    by (simp add: last_def T_less_val vu v1)
  show "\<exists>s'. static_greedy sg t n incr tc s = Inr s'
           \<and> plastiter s' = map_option (\<lambda>_. 0) (plastiter s)"
    unfolding res using last by (simp add: set_last_def)
qed

lemma static_greedy_neg_wrap:
  fixes incr tc :: "'a::len word"
  assumes len: "32 \<le> LENGTH('a)"
    and neg: "incr <s 0" "0 <s - incr"
    and le: "val sg (pupper s) \<le> val sg (plower s)"
    and tc: "uint tc = (val sg (plower s) - val sg (pupper s)) div (- sint incr) + 1"
    and n: "n \<noteq> 0" and ge: "\<not> tc < ucast n" and two: "1 < tc" and t: "t < n"
    and wrap: "val sg (plower s) + uint t * (ceil_div (uint tc) (uint n) * sint incr)
                 < val sg (i_maxmin_mn sg :: 'a word)"
  shows "\<exists>s'. static_greedy sg t n incr tc s = Inr s'
           \<and> plastiter s' = map_option (\<lambda>_. 0) (plastiter s)"
    and "uint tc \<le> uint t * ceil_div (uint tc) (uint n)"
proof -
  define L U I T C where "L = val sg (plower s)" and "U = val sg (pupper s)"
    and "I = sint incr" and "T = uint t" and "C = ceil_div (uint tc) (uint n)"
  define B where "B = C * I"
  define vmax vmin where "vmax = val sg (i_maxmin_mx sg :: 'a word)"
    and "vmin = val sg (i_maxmin_mn sg :: 'a word)"
  define S :: int where "S = 2 ^ LENGTH('a)"
  note ni = neg_incr [OF neg]
  have I: "I < 0" "incr \<noteq> 0" "\<not> 0 <s incr"
    using ni by (simp_all add: I_def)
  have I': "0 < - I" using I(1) by simp
  have T: "0 \<le> T" "T \<le> uint n - 1"
    using t by (simp_all add: T_def word_less_alt)
  note wc = word_ceil_div [OF len n ge]
  have nz: "(ucast n :: 'a word) \<noteq> 0"
    using n len by (auto simp: ucast_kmp_uint32_eq_0)
  note cb = ceil_div_bounds(1,4) [OF wc(2,3), folded C_def]
  have span: "(uint tc - 1) * (- I) \<le> L - U"
  proof -
    have "(L - U) div (- I) * (- I) \<le> L - U"
      using I' by (rule div_mult_le_int)
    moreover have "uint tc - 1 = (L - U) div (- I)"
      unfolding tc L_def U_def I_def by simp
    ultimately show ?thesis by (simp only:)
  qed
  have "2 \<le> uint tc"
    using two by (simp add: word_less_alt)
  then have "1 * (- I) \<le> (uint tc - 1) * (- I)"
    using I(1) by (intro mult_right_mono) simp_all
  with span have IU: "- I \<le> L - U" by simp
  have "1 * (- I) \<le> C * (- I)"
    using cb(1) I(1) by (intro mult_right_mono) simp_all
  then have IB: "B \<le> I" by (simp add: B_def)
  have rng: "vmin \<le> L" "L \<le> vmax" "vmin \<le> U" "U \<le> vmax"
    using val_range [of sg "plower s"] val_range [of sg "pupper s"]
    by (simp_all add: L_def U_def vmax_def vmin_def)
  have sz: "vmax - vmin = S - 1"
    unfolding vmax_def vmin_def S_def by (rule mx_minus_mn)
  have UL: "(- U) - (- L) \<le> S - 1"
    using rng sz by linarith
  define X where "X = L + T * B"
  have wr: "X < vmin"
    using wrap by (simp add: X_def L_def T_def B_def C_def I_def vmin_def)
  then have UX: "- U < - L + T * (C * (- I))"
    using rng by (simp add: X_def B_def)
  have span': "(uint tc - 1) * (- I) \<le> (- U) - (- L)"
    using span by simp
  note gb = greedy_wrap_bounds [OF I' cb wc(2,3) T span' UL UX]
  show "uint tc \<le> uint t * ceil_div (uint tc) (uint n)"
    using gb(1) by (simp add: T_def C_def)
  have Y: "U - S + 1 \<le> X + B"
    using gb(2) by (simp add: X_def B_def algebra_simps)
  \<comment> \<open>the words\<close>
  define big lower upper0 upper1 last upper2 where
    "big = (tc div ucast n + (if tc mod ucast n \<noteq> 0 then 1 else 0)) * incr"
    and "lower = plower s + ucast t * big"
    and "upper0 = lower + big - incr"
    and "upper1 = (if T_less sg lower upper0 then i_maxmin_mn sg else upper0)"
    and "last = (T_le sg (pupper s) lower \<and> T_less sg upper1 (pupper s - incr))"
    and "upper2 = (if T_less sg upper1 (pupper s) then pupper s else upper1)"
  have res: "static_greedy sg t n incr tc s
               = Inr (set_last last (s\<lparr>plower := lower, pupper := upper2\<rparr>))"
    using I(3) nz
    by (simp add: static_greedy_def UT_div_def UT_mod_def bindF_def Let_def big_def lower_def
          upper0_def upper1_def upper2_def last_def)
  have wI: "word_of_int I = incr" and wL: "word_of_int L = plower s"
    and wU: "word_of_int U = pupper s"
    by (simp_all add: I_def L_def U_def word_of_int_val)
  have wT: "(word_of_int T :: 'a word) = ucast t"
    by (simp only: T_def ucast_eq)
  have "word_of_int B = word_of_int C * (word_of_int I :: 'a word)"
    unfolding B_def by (simp only: wi_hom_syms)
  then have big: "big = word_of_int B"
    unfolding big_def wc(1) C_def wI by simp
  have "word_of_int X = word_of_int L + word_of_int T * (word_of_int B :: 'a word)"
    unfolding X_def by (simp only: wi_hom_syms)
  then have lower: "lower = word_of_int X"
    unfolding lower_def big wL wT by simp
  have "vmin - S \<le> X"
    using Y IB I(1) rng by linarith
  then have vl: "val sg lower = X + S"
    unfolding lower S_def using wr
    by (intro val_word_of_int_wrap_down) (simp_all add: vmin_def)
  define M where "M = X + B - I"
  have "word_of_int M = word_of_int X + word_of_int B - (word_of_int I :: 'a word)"
    unfolding M_def by (simp only: wi_hom_syms)
  then have upper0: "upper0 = word_of_int M"
    unfolding upper0_def lower big wI by simp
  have M: "M < vmin" "vmin - S \<le> M" "M \<le> X"
    unfolding M_def using wr IB Y I(1) rng by linarith+
  have v0: "val sg upper0 = M + S"
    unfolding upper0 S_def using M(1,2)
    by (intro val_word_of_int_wrap_down) (simp_all add: vmin_def S_def)
  have v1: "val sg upper1 = M + S"
    using M(3) by (simp add: upper1_def T_less_val vl v0)
  have "pupper s - incr = word_of_int (U - I)"
    unfolding wI [symmetric] wU [symmetric] by (simp only: wi_hom_syms)
  moreover have "val sg (word_of_int (U - I) :: 'a word) = U - I"
    using rng I(1) IU by (intro val_word_of_int) (simp_all add: vmin_def vmax_def)
  ultimately have vu: "val sg (pupper s - incr) = U - I" by simp
  have "\<not> M + S < U - I"
    unfolding M_def using Y by linarith
  then have last: "\<not> last"
    by (simp add: last_def T_less_val vu v1)
  show "\<exists>s'. static_greedy sg t n incr tc s = Inr s'
           \<and> plastiter s' = map_option (\<lambda>_. 0) (plastiter s)"
    unfolding res using last by (simp add: set_last_def)
qed

text \<open>
  The flag of the greedy branch on a legal loop, for every thread number below \<open>n\<close>,
  whether or not its start wraps around.
\<close>

lemma static_greedy_flag:
  fixes incr tc :: "'a::len word"
  assumes len: "32 \<le> LENGTH('a)"
    and legal: "legal sg incr (plower s) (pupper s)"
    and tc: "uint tc = trip_of sg incr (plower s) (pupper s)"
    and n: "n \<noteq> 0" and ge: "\<not> tc < ucast n" and two: "1 < tc" and t: "t < n"
  defines "C \<equiv> ceil_div (uint tc) (uint n)"
  shows "\<exists>s'. static_greedy sg t n incr tc s = Inr s'
           \<and> plastiter s' = map_option (\<lambda>_. of_bool
                 (uint t * C < uint tc \<and> uint tc \<le> (uint t + 1) * C)) (plastiter s)"
proof -
  define X where "X = val sg (plower s) + uint t * (ceil_div (uint tc) (uint n) * sint incr)"
  define vmax vmin where "vmax = val sg (i_maxmin_mx sg :: 'a word)"
    and "vmin = val sg (i_maxmin_mn sg :: 'a word)"
  note wc = word_ceil_div(2,3) [OF len n ge]
  have C1: "1 \<le> ceil_div (uint tc) (uint n)"
    using ceil_div_bounds(1) [OF wc] .
  have rng: "vmin \<le> val sg (plower s)" "val sg (plower s) \<le> vmax"
    unfolding vmin_def vmax_def by (rule val_range)+
  show ?thesis
  proof (cases "vmin \<le> X \<and> X \<le> vmax")
    case True
    then show ?thesis
      using static_greedy_legal [OF len legal tc n ge two, of t] unfolding C_def X_def vmin_def vmax_def
      by blast
  next
    case False
    show ?thesis
    proof (cases "0 <s incr")
      case pos: True
      have le: "val sg (plower s) \<le> val sg (pupper s)"
        using legal pos by (simp add: legal_def)
      have tc': "uint tc = (val sg (pupper s) - val sg (plower s)) div sint incr + 1"
        using tc pos by (simp add: trip_of_def)
      have "0 \<le> uint t * (ceil_div (uint tc) (uint n) * sint incr)"
        using C1 pos_incr(1) [OF pos] by simp
      then have "vmax < X"
        using False rng unfolding X_def by linarith
      then have wrap: "val sg (i_maxmin_mx sg :: 'a word)
                 < val sg (plower s) + uint t * (ceil_div (uint tc) (uint n) * sint incr)"
        by (simp add: vmax_def X_def)
      note w = static_greedy_pos_wrap [OF len pos le tc' n ge two t wrap]
      have f: "(uint t * C < uint tc \<and> uint tc \<le> (uint t + 1) * C) = False"
        using w(2) by (simp add: C_def)
      show ?thesis
        unfolding f using w(1) by simp
    next
      case False
      then have neg: "incr <s 0" "0 <s - incr"
        using legal by (simp_all add: legal_def)
      have le: "val sg (pupper s) \<le> val sg (plower s)"
        using legal False by (simp add: legal_def)
      have tc': "uint tc = (val sg (plower s) - val sg (pupper s)) div (- sint incr) + 1"
        using tc False by (simp add: trip_of_def)
      have "uint t * (ceil_div (uint tc) (uint n) * sint incr) \<le> 0"
        using C1 neg_incr(1) [OF neg] by (simp add: mult_nonneg_nonpos)
      then have "X < vmin"
        using \<open>\<not> (vmin \<le> X \<and> X \<le> vmax)\<close> rng unfolding X_def by linarith
      then have wrap: "val sg (plower s) + uint t * (ceil_div (uint tc) (uint n) * sint incr)
                 < val sg (i_maxmin_mn sg :: 'a word)"
        by (simp add: vmin_def X_def)
      note w = static_greedy_neg_wrap [OF len neg le tc' n ge two t wrap]
      have f: "(uint t * C < uint tc \<and> uint tc \<le> (uint t + 1) * C) = False"
        using w(2) by (simp add: C_def)
      show ?thesis
        unfolding f using w(1) by simp
    qed
  qed
qed

subsection \<open>The last-iteration flag of the single-level routine\<close>

text \<open>Exactly one thread number below \<open>n\<close> is a given number below \<open>n\<close>.\<close>

lemma ex1_ucast_eq:
  fixes x :: "'a::len word" and n :: kmp_uint32
  assumes len: "32 \<le> LENGTH('a)" and x: "x < ucast n"
  shows "\<exists>!t. t < n \<and> (ucast t :: 'a word) = x"
proof -
  have un: "uint (ucast t :: 'a word) = uint t" for t :: kmp_uint32
    by (rule uint_ucast_kmp_uint32 [OF len])
  have xn: "uint x < uint n"
    using x by (simp add: word_less_alt un)
  then have "uint x < 2 ^ LENGTH(32)"
    using uint_bounded [of n] by linarith
  then have "uint x mod 2 ^ LENGTH(32) = uint x"
    by simp
  then have u: "uint (word_of_int (uint x) :: kmp_uint32) = uint x"
    by (simp only: uint_word_of_int)
  show ?thesis
  proof (rule ex1I [of _ "word_of_int (uint x)"])
    have "uint (ucast (word_of_int (uint x) :: kmp_uint32) :: 'a word) = uint x"
      by (simp only: un u)
    then have "(ucast (word_of_int (uint x) :: kmp_uint32) :: 'a word) = x"
      by (metis word_of_int_uint)
    moreover have "(word_of_int (uint x) :: kmp_uint32) < n"
      unfolding word_less_alt u using xn .
    ultimately show "(word_of_int (uint x) :: kmp_uint32) < n \<and> (ucast (word_of_int (uint x) :: kmp_uint32) :: 'a word) = x"
      by (simp only: simp_thms)
  next
    fix t :: kmp_uint32
    assume "t < n \<and> (ucast t :: 'a word) = x"
    then have "uint t = uint x"
      using un [of t] by simp
    then show "t = word_of_int (uint x)"
      by (metis word_of_int_uint)
  qed
qed

lemma ex1_window:
  fixes C N TC :: int
  assumes C: "1 \<le> C" and TC: "1 \<le> TC" and cover: "TC \<le> N * C"
  shows "\<exists>!T. 0 \<le> T \<and> T < N \<and> T * C < TC \<and> TC \<le> (T + 1) * C"
proof -
  have C0: "0 < C" using C by simp
  define T0 where "T0 = (TC - 1) div C"
  have a: "T0 * C \<le> TC - 1" "TC - 1 < (T0 + 1) * C"
    using div_mult_le_int [OF C0, of "TC - 1"] by (simp_all add: T0_def)
  have "0 \<le> T0"
    using TC C0 by (simp add: T0_def pos_imp_zdiv_nonneg_iff)
  moreover have "T0 < N"
  proof (rule ccontr)
    assume "\<not> T0 < N"
    then have "N * C \<le> T0 * C"
      using C0 by (intro mult_right_mono) simp_all
    then show False using a(1) cover by simp
  qed
  ultimately have ex: "0 \<le> T0 \<and> T0 < N \<and> T0 * C < TC \<and> TC \<le> (T0 + 1) * C"
    using a by simp
  have uniq: "T = T0" if "0 \<le> T \<and> T < N \<and> T * C < TC \<and> TC \<le> (T + 1) * C" for T
  proof -
    have "T \<le> (TC - 1) div C"
      using that by (simp add: le_div_iff_int [OF C0])
    moreover have "\<not> T + 1 \<le> (TC - 1) div C"
      using that by (simp add: le_div_iff_int [OF C0])
    ultimately show ?thesis by (simp add: T0_def)
  qed
  show ?thesis
    using ex uniq by (intro ex1I [of _ T0]) blast+
qed

lemma ex1_uint:
  fixes n :: kmp_uint32
  assumes "\<exists>!T. 0 \<le> T \<and> T < uint n \<and> P T"
  shows "\<exists>!t. t < n \<and> P (uint t)"
proof -
  obtain T where T: "0 \<le> T" "T < uint n" "P T" and u: "\<And>T'. 0 \<le> T' \<and> T' < uint n \<and> P T' \<Longrightarrow> T' = T"
    using assms by blast
  have "T < 2 ^ LENGTH(32)"
    using T(2) uint_bounded [of n] by linarith
  then have "T mod 2 ^ LENGTH(32) = T"
    using T(1) by simp
  then have w: "uint (word_of_int T :: kmp_uint32) = T"
    by (simp only: uint_word_of_int)
  show ?thesis
  proof (rule ex1I [of _ "word_of_int T"])
    show "(word_of_int T :: kmp_uint32) < n \<and> P (uint (word_of_int T :: kmp_uint32))"
      unfolding word_less_alt w using T by simp
  next
    fix t :: kmp_uint32
    assume "t < n \<and> P (uint t)"
    then have "uint t = T"
      using u [of "uint t"] by (simp add: word_less_alt)
    then show "t = word_of_int T"
      by (metis word_of_int_uint)
  qed
qed

lemma flag_is_one [simp]:
  "map_option (\<lambda>_. of_bool b :: kmp_int32) p = Some 1 \<longleftrightarrow> p \<noteq> None \<and> b"
  by (cases p; cases b) simp_all

lemma plastiter_set_last [simp]:
  "plastiter (set_last b s) = map_option (\<lambda>_. of_bool b) (plastiter s)"
  by (simp add: set_last_def)

lemma last_flag_serial:
  fixes incr chunk :: "'a::len word"
  assumes "incr \<noteq> 0" "\<not> zero_trip sg incr (plower s) (pupper s)" "t_serialized c \<or> nth c = 1"
    and "plastiter s \<noteq> None"
  shows "last_flag sg c schedtype incr chunk s t"
  using assms by (auto simp: last_flag_def kmp_for_static_init_def)

lemma ex1_cong:
  assumes "\<And>t. t < n \<Longrightarrow> P t \<longleftrightarrow> Q t" and "\<exists>!t. t < n \<and> Q t"
  shows "\<exists>!t. t < n \<and> P t"
proof -
  obtain t where t: "t < n" "Q t" and u: "\<And>t'. t' < n \<and> Q t' \<Longrightarrow> t' = t"
    using assms(2) by blast
  show ?thesis
  proof (rule ex1I [of _ t])
    show "t < n \<and> P t" using t assms(1) by simp
  next
    fix t' assume "t' < n \<and> P t'"
    then show "t' = t" using u [of t'] assms(1) [of t'] by simp
  qed
qed

lemma for_trip_count_representable:
  fixes incr lower upper :: "'a::len word"
  assumes len: "32 \<le> LENGTH('a)" and legal: "legal sg incr lower upper"
    and rep: "trip_of sg incr lower upper < 2 ^ LENGTH('a)"
  shows "\<exists>tc. for_trip_count sg incr lower upper = Inr tc
            \<and> uint tc = trip_of sg incr lower upper \<and> tc \<noteq> 0"
proof -
  let ?n = "trip_of sg incr lower upper"
  have one: "1 \<le> ?n"
    using trip_of_bounds(1) [OF legal] .
  then have "?n mod 2 ^ LENGTH('a) = ?n"
    using rep by simp
  then have u: "uint (word_of_int ?n :: 'a word) = ?n"
    by (simp only: uint_word_of_int)
  then have "(word_of_int ?n :: 'a word) \<noteq> 0"
    using one by (metis uint_0_iff not_one_le_zero)
  then show ?thesis
    using for_trip_count_legal [OF len legal] u by simp
qed

lemma last_flag_chunked:
  fixes incr chunk :: "'a::len word"
  assumes len: "32 \<le> LENGTH('a)"
    and incr: "incr \<noteq> 0"
    and nz: "\<not> zero_trip sg incr (plower s) (pupper s)"
    and par: "\<not> t_serialized c" "1 < nth c"
    and sched: "schedtype = kmp_sch_static_chunked \<or> schedtype = kmp_distribute_static_chunked"
    and tc: "for_trip_count sg incr (plower s) (pupper s) = Inr trip_count"
    and chk: "\<not> (env_consistency_check c \<and> trip_count = 0 \<and> pupper s \<noteq> plower s)"
    and nn: "plastiter s \<noteq> None"
  shows "last_flag sg c schedtype incr chunk s t \<longleftrightarrow>
           ucast t = ((trip_count - 1) div (if chunk <s 1 then 1 else chunk)) mod ucast (nth c)"
  using for_static_init_chunked [of incr sg s "c\<lparr>tid := t\<rparr>" schedtype trip_count chunk] assms
  by (simp add: last_flag_def Let_def)

lemma last_flag_static:
  fixes incr chunk :: "'a::len word"
  assumes len: "32 \<le> LENGTH('a)"
    and legal: "legal sg incr (plower s) (pupper s)"
    and par: "\<not> t_serialized c" "1 < nth c"
    and sched: "schedtype = kmp_sch_static \<or> schedtype = kmp_distribute_static"
    and tc: "for_trip_count sg incr (plower s) (pupper s) = Inr trip_count"
    and chk: "trip_count \<noteq> 0"
    and nn: "plastiter s \<noteq> None"
    and t: "t < nth c"
  shows "last_flag sg c schedtype incr chunk s t \<longleftrightarrow>
           (if trip_count < ucast (nth c) then (ucast t :: 'a word) = trip_count - 1
            else if kmp_static c = kmp_sch_static_balanced then t = nth c - 1
            else uint t * ceil_div (uint trip_count) (uint (nth c)) < uint trip_count
                 \<and> uint trip_count \<le> (uint t + 1) * ceil_div (uint trip_count) (uint (nth c)))"
proof -
  have n1: "nth c \<noteq> 1" "nth c \<noteq> 0" using par(2) by auto
  have nzw: "(ucast (nth c) :: 'a word) \<noteq> 0"
    using n1(2) len by (simp add: ucast_kmp_uint32_eq_0)
  note eq = for_static_init_static [of incr sg s "c\<lparr>tid := t\<rparr>" schedtype trip_count chunk,
      simplified, OF legal_nonempty [OF legal] par(1) n1(1) sched tc]
  show ?thesis
  proof (cases "trip_count < ucast (nth c)")
    case True
    then show ?thesis
      using eq chk nn by (simp add: last_flag_def static_fewer_def)
  next
    case ge: False
    show ?thesis
    proof (cases "kmp_static c = kmp_sch_static_balanced")
      case True
      then show ?thesis
        using eq chk nn ge static_balanced_eq [OF nzw, of t incr trip_count s]
        by (simp add: last_flag_def Let_def)
    next
      case False
      have two: "1 < trip_count"
        using ge par(2) uint_ucast_kmp_uint32 [OF len, of "nth c"] by (simp add: word_less_alt)
      note u = uint_trip_of [OF len legal tc chk]
      obtain s' where "static_greedy sg t (nth c) incr trip_count s = Inr s'"
        and "plastiter s' = map_option (\<lambda>_. of_bool
                 (uint t * ceil_div (uint trip_count) (uint (nth c)) < uint trip_count
                  \<and> uint trip_count \<le> (uint t + 1) * ceil_div (uint trip_count) (uint (nth c))))
               (plastiter s)"
        using static_greedy_flag [OF len legal u n1(2) ge two t] by blast
      then show ?thesis
        using eq chk nn ge False by (simp add: last_flag_def)
    qed
  qed
qed


text \<open>
  The single-level routine flags exactly one thread, unless the trip count is \<open>2\<^sup>w\<close> and
  the counter of the routine is 0.
\<close>

lemma single_one_last:
  fixes incr chunk :: "'a::len word"
  assumes len: "32 \<le> LENGTH('a)"
    and legal: "legal sg incr (plower s) (pupper s)"
    and par: "t_serialized c \<longrightarrow> nth c = 1" and n: "nth c \<noteq> 0"
    and sched: "schedtype \<noteq> kmp_sch_other"
    and nn: "plastiter s \<noteq> None"
    and rep: "trip_of sg incr (plower s) (pupper s) < 2 ^ LENGTH('a) \<or> nth c = 1
              \<or> (schedtype = kmp_sch_static_chunked \<or> schedtype = kmp_distribute_static_chunked)
                 \<and> \<not> env_consistency_check c"
  shows "\<exists>!t. t < nth c \<and> last_flag sg c schedtype incr chunk s t"
proof (cases "nth c = 1")
  case True
  have "last_flag sg c schedtype incr chunk s t" for t
    using last_flag_serial [OF legal_nonempty [OF legal] _ nn, of c] True by simp
  moreover have "\<exists>!t :: kmp_uint32. t < 1"
    by (intro ex1I [of _ 0]) (auto simp: word_less_1)
  ultimately show ?thesis
    using True by simp
next
  case False
  then have "uint (nth c) \<noteq> 1" "uint (nth c) \<noteq> 0"
    using n by (metis uint_1 word_of_int_uint, simp add: uint_0_iff)
  then have "1 < uint (nth c)"
    using uint_ge_0 [of "nth c"] by linarith
  then have n1: "1 < nth c"
    by (simp add: word_less_alt)
  have ser: "\<not> t_serialized c"
    using par False by blast
  have nzw: "(ucast (nth c) :: 'a word) \<noteq> 0"
    using n len by (simp add: ucast_kmp_uint32_eq_0)
  define trip_count :: "'a word" where
    "trip_count = word_of_int (trip_of sg incr (plower s) (pupper s))"
  have tc: "for_trip_count sg incr (plower s) (pupper s) = Inr trip_count"
    unfolding trip_count_def by (rule for_trip_count_legal [OF len legal])
  have nz: "trip_count \<noteq> 0" if "trip_of sg incr (plower s) (pupper s) < 2 ^ LENGTH('a)"
    using for_trip_count_representable [OF len legal that] tc by simp
  consider (chunked) "schedtype = kmp_sch_static_chunked \<or> schedtype = kmp_distribute_static_chunked"
    | (static) "schedtype = kmp_sch_static \<or> schedtype = kmp_distribute_static"
    using sched by (cases schedtype) simp_all
  then show ?thesis
  proof cases
    case chunked
    have chk: "\<not> (env_consistency_check c \<and> trip_count = 0 \<and> pupper s \<noteq> plower s)"
      using rep False nz by blast
    define x where "x = ((trip_count - 1) div (if chunk <s 1 then 1 else chunk)) mod ucast (nth c)"
    have "x < ucast (nth c)"
      unfolding x_def using nzw by (simp add: word_mod_less_divisor word_greater_zero_iff)
    then have "\<exists>!t. t < nth c \<and> (ucast t :: 'a word) = x"
      by (rule ex1_ucast_eq [OF len])
    then show ?thesis
      using last_flag_chunked [OF len legal_nonempty [OF legal] ser n1 chunked tc chk nn, of chunk]
      unfolding x_def [symmetric]
      by (rule ex1_cong [where Q = "\<lambda>t. (ucast t :: 'a word) = x", rotated])
  next
    case static
    then have "trip_of sg incr (plower s) (pupper s) < 2 ^ LENGTH('a)"
      using rep False by auto
    then have chk: "trip_count \<noteq> 0"
      by (rule nz)
    define C where "C = ceil_div (uint trip_count) (uint (nth c))"
    define P where "P t \<longleftrightarrow>
           (if trip_count < ucast (nth c) then (ucast t :: 'a word) = trip_count - 1
            else if kmp_static c = kmp_sch_static_balanced then t = nth c - 1
            else uint t * C < uint trip_count \<and> uint trip_count \<le> (uint t + 1) * C)" for t
    have fl: "last_flag sg c schedtype incr chunk s t \<longleftrightarrow> P t" if t: "t < nth c" for t
      unfolding P_def C_def
      by (rule last_flag_static [OF len legal ser n1 static tc chk nn t])
    have "\<exists>!t. t < nth c \<and> P t"
    proof (cases "trip_count < ucast (nth c)")
      case True
      have "trip_count - 1 < trip_count"
        using chk by (simp add: word_less_nat_alt unat_minus_one unat_gt_0)
      then have "trip_count - 1 < ucast (nth c)"
        using True by simp
      then show ?thesis
        unfolding P_def using True ex1_ucast_eq [OF len, of "trip_count - 1" "nth c"]
        by (simp only: if_True)
    next
      case ge: False
      show ?thesis
      proof (cases "kmp_static c = kmp_sch_static_balanced")
        case True
        have "nth c - 1 < nth c"
          using n by (simp add: word_less_nat_alt unat_minus_one unat_gt_0)
        then show ?thesis
          unfolding P_def using ge True by (intro ex1I [of _ "nth c - 1"]) simp_all
      next
        case False
        note wc = word_ceil_div(2,3) [OF len n ge]
        note cb = ceil_div_bounds(1,3) [OF wc, folded C_def]
        have "1 \<le> uint trip_count"
          using wc by simp
        then have "\<exists>!T. 0 \<le> T \<and> T < uint (nth c) \<and> T * C < uint trip_count
                       \<and> uint trip_count \<le> (T + 1) * C"
          using cb by (intro ex1_window) simp_all
        then have "\<exists>!t. t < nth c \<and> uint t * C < uint trip_count
                       \<and> uint trip_count \<le> (uint t + 1) * C"
          by (rule ex1_uint [where P = "\<lambda>T. T * C < uint trip_count \<and> uint trip_count \<le> (T + 1) * C"])
        then show ?thesis
          unfolding P_def using ge False by simp
      qed
    qed
    then show ?thesis
      using fl by (rule ex1_cong [where Q = P, rotated])
  qed
qed

text \<open>
  With \<open>2\<^sup>w\<close> iterations, more than one thread and the static schedule or the consistency
  check, no thread is flagged: the condition of \<open>single_one_last\<close> cannot be dropped.
\<close>

lemma single_none_last:
  fixes incr chunk :: "'a::len word"
  assumes len: "32 \<le> LENGTH('a)"
    and legal: "legal sg incr (plower s) (pupper s)"
    and par: "\<not> t_serialized c" "nth c \<noteq> 1" "nth c \<noteq> 0"
    and ov: "\<not> trip_of sg incr (plower s) (pupper s) < 2 ^ LENGTH('a)"
    and bad: "schedtype = kmp_sch_static \<or> schedtype = kmp_distribute_static
              \<or> env_consistency_check c"
    and t: "t < nth c"
  shows "\<not> last_flag sg c schedtype incr chunk s t"
proof -
  have e: "trip_of sg incr (plower s) (pupper s) = 2 ^ LENGTH('a)"
    using ov trip_of_bounds(2) [OF legal] by simp
  have tc: "for_trip_count sg incr (plower s) (pupper s) = Inr 0"
    using for_trip_count_legal [OF len legal] unfolding e by (simp only: word_of_int_2p_len)
  have ne: "pupper s \<noteq> plower s"
  proof
    assume "pupper s = plower s"
    then have "trip_of sg incr (plower s) (pupper s) = 1"
      by (simp add: trip_of_def)
    moreover have "(1 :: int) < 2 ^ LENGTH('a)"
      by (rule one_less_power) simp_all
    ultimately show False
      using e by linarith
  qed
  note nz = legal_nonempty [OF legal]
  have nzw: "(0 :: 'a word) < ucast (nth c)"
    using par(3) len by (simp add: word_greater_zero_iff ucast_kmp_uint32_eq_0)
  show ?thesis
  proof (cases "env_consistency_check c")
    case True
    then show ?thesis
      using nz par tc ne by (simp add: last_flag_def kmp_for_static_init_def bindF_def)
  next
    case False
    then have st: "schedtype = kmp_sch_static \<or> schedtype = kmp_distribute_static"
      using bad by simp
    have "uint (ucast t :: 'a word) = uint t"
      by (rule uint_ucast_kmp_uint32 [OF len])
    moreover have "uint t < uint (nth c)"
      using t by (simp add: word_less_alt)
    moreover have "uint (nth c) < 2 ^ 32"
      using uint_bounded [of "nth c"] by simp
    moreover have "(2 :: int) ^ 32 \<le> 2 ^ LENGTH('a)"
      using len by (intro power_increasing) simp_all
    moreover have "uint (- 1 :: 'a word) = 2 ^ LENGTH('a) - 1"
      by (simp add: unsigned_minus_1_eq_mask mask_eq_exp_minus_1)
    ultimately have "uint (ucast t :: 'a word) \<noteq> uint (- 1 :: 'a word)"
      by linarith
    then have nt: "(ucast t :: 'a word) \<noteq> - 1"
      by auto
    show ?thesis
      using st
    proof
      assume "schedtype = kmp_sch_static"
      then show ?thesis
        using nz par tc False nzw nt
        by (simp add: last_flag_def kmp_for_static_init_def bindF_def static_fewer_def set_last_def)
    next
      assume "schedtype = kmp_distribute_static"
      then show ?thesis
        using nz par tc False nzw nt
        by (simp add: last_flag_def kmp_for_static_init_def bindF_def static_fewer_def set_last_def)
    qed
  qed
qed

text \<open>
  So on a legal loop, for a team serialized only when it has one thread, for a schedule
  the routine accepts and a flag pointer that is not null, exactly one thread is flagged
  if and only if the trip count is below \<open>2\<^sup>w\<close>, or there is one thread, or the schedule is
  chunked and the consistency check is off.
\<close>

lemma single_one_last_iff:
  fixes incr chunk :: "'a::len word"
  assumes len: "32 \<le> LENGTH('a)"
    and legal: "legal sg incr (plower s) (pupper s)"
    and par: "t_serialized c \<longrightarrow> nth c = 1" and n: "nth c \<noteq> 0"
    and sched: "schedtype \<noteq> kmp_sch_other"
    and nn: "plastiter s \<noteq> None"
  shows "(\<exists>!t. t < nth c \<and> last_flag sg c schedtype incr chunk s t)
         \<longleftrightarrow> trip_of sg incr (plower s) (pupper s) < 2 ^ LENGTH('a) \<or> nth c = 1
              \<or> (schedtype = kmp_sch_static_chunked \<or> schedtype = kmp_distribute_static_chunked)
                 \<and> \<not> env_consistency_check c"
proof
  assume "trip_of sg incr (plower s) (pupper s) < 2 ^ LENGTH('a) \<or> nth c = 1
              \<or> (schedtype = kmp_sch_static_chunked \<or> schedtype = kmp_distribute_static_chunked)
                 \<and> \<not> env_consistency_check c"
  then show "\<exists>!t. t < nth c \<and> last_flag sg c schedtype incr chunk s t"
    by (rule single_one_last [OF len legal par n sched nn])
next
  assume u: "\<exists>!t. t < nth c \<and> last_flag sg c schedtype incr chunk s t"
  show "trip_of sg incr (plower s) (pupper s) < 2 ^ LENGTH('a) \<or> nth c = 1
              \<or> (schedtype = kmp_sch_static_chunked \<or> schedtype = kmp_distribute_static_chunked)
                 \<and> \<not> env_consistency_check c"
  proof (rule ccontr)
    assume a: "\<not> (trip_of sg incr (plower s) (pupper s) < 2 ^ LENGTH('a) \<or> nth c = 1
              \<or> (schedtype = kmp_sch_static_chunked \<or> schedtype = kmp_distribute_static_chunked)
                 \<and> \<not> env_consistency_check c)"
    then have ov: "\<not> trip_of sg incr (plower s) (pupper s) < 2 ^ LENGTH('a)"
      and n1: "nth c \<noteq> 1" by simp_all
    have ser: "\<not> t_serialized c" using par n1 by blast
    have bad: "schedtype = kmp_sch_static \<or> schedtype = kmp_distribute_static
              \<or> env_consistency_check c"
      using a sched by (cases schedtype) auto
    obtain t where "t < nth c" "last_flag sg c schedtype incr chunk s t"
      using u by blast
    then show False
      using single_none_last [OF len legal ser n1 n ov bad] by blast
  qed
qed

subsection \<open>The trip count of the distribute routines\<close>

lemma sint_diff_fits:
  fixes lower upper :: "'a::len word"
  assumes "cast_exact sg lower upper"
  shows "sint (upper - lower) = val sg upper - val sg lower"
proof -
  have "upper - lower = word_of_int (val sg upper - val sg lower)"
    by (simp add: word_of_int_val wi_hom_syms)
  moreover have "val True (word_of_int (val sg upper - val sg lower) :: 'a word)
                   = val sg upper - val sg lower"
    using assms by (intro val_word_of_int) (auto simp: cast_exact_def val_mn val_mx)
  ultimately show ?thesis
    by (simp add: val_def)
qed

lemma span_fits_cast: "span_fits sg lower upper \<Longrightarrow> cast_exact sg lower upper"
  by (auto simp: span_fits_def cast_exact_def)

lemma sdiv_nonpos: "k \<le> 0 \<Longrightarrow> l < 0 \<Longrightarrow> k sdiv l = (- k) div (- l :: int)"
  by (cases "k = 0") (simp_all add: signed_divide_int_def)

lemma dist_trip_count_legal:
  fixes incr lower upper :: "'a::len word"
  assumes len: "32 \<le> LENGTH('a)" and legal: "legal sg incr lower upper"
    and ex: "incr = 1 \<or> incr = - 1 \<or> cast_exact sg lower upper"
  shows "dist_trip_count incr lower upper = Inr (word_of_int (trip_of sg incr lower upper))"
proof (cases "0 <s incr")
  case True
  have I: "0 < sint incr" using True by (rule pos_incr)
  have le: "val sg lower \<le> val sg upper"
    using legal True by (simp add: legal_def)
  show ?thesis
  proof (cases "incr = 1")
    case one: True
    have "upper - lower + 1 = word_of_int (val sg upper - val sg lower + 1)"
      by (simp add: word_of_int_val wi_hom_syms)
    moreover have "sint incr = 1"
      using one sint_one [OF len] by simp
    ultimately show ?thesis
      using one True by (simp add: dist_trip_count_def trip_of_def)
  next
    case False
    have m1: "incr \<noteq> - 1" using I by auto
    then have fits: "cast_exact sg lower upper" using ex False by simp
    note m1
    moreover have "incr \<noteq> 0" using I by auto
    moreover have "sint (upper - lower) sdiv sint incr
                     = (val sg upper - val sg lower) div sint incr"
      using sint_diff_fits [OF fits] le I by (simp add: sdiv_nonneg)
    ultimately show ?thesis
      using False True
      by (simp add: dist_trip_count_def ST_div_def bindF_def trip_of_def wi_hom_syms)
  qed
next
  case False
  then have neg: "incr <s 0" "0 <s - incr"
    using legal by (simp_all add: legal_def)
  note ni = neg_incr [OF neg]
  have le: "val sg upper \<le> val sg lower"
    using legal False by (simp add: legal_def)
  have one: "incr \<noteq> 1"
    using ni(1) sint_one [OF len] by auto
  show ?thesis
  proof (cases "incr = - 1")
    case True
    have "lower - upper + 1 = word_of_int (val sg lower - val sg upper + 1)"
      by (simp add: word_of_int_val wi_hom_syms)
    moreover have "- sint incr = 1"
      using True by simp
    ultimately show ?thesis
      using True one False by (simp add: dist_trip_count_def trip_of_def)
  next
    case m1: False
    have fits: "cast_exact sg lower upper" using ex one m1 by simp
    have "sint (upper - lower) sdiv sint incr
            = (val sg lower - val sg upper) div (- sint incr)"
      using sint_diff_fits [OF fits] le ni(1) by (simp add: sdiv_nonpos)
    then show ?thesis
      using m1 one False ni(3)
      by (simp add: dist_trip_count_def ST_div_def bindF_def trip_of_def wi_hom_syms)
  qed
qed

lemma span_fits_representable:
  fixes incr lower upper :: "'a::len word"
  assumes legal: "legal sg incr lower upper" and fits: "span_fits sg lower upper"
  shows "trip_of sg incr lower upper < 2 ^ LENGTH('a)"
proof -
  let ?n = "trip_of sg incr lower upper"
  have d: "\<bar>val sg upper - val sg lower\<bar> < 2 ^ (LENGTH('a) - 1)"
    using fits by (simp add: span_fits_def)
  have h: "(2 :: int) ^ LENGTH('a) = 2 * 2 ^ (LENGTH('a) - 1)"
    by (metis len_gt_0 power_minus_mult mult.commute)
  have "1 \<le> (2 :: int) ^ (LENGTH('a) - 1)"
    by simp
  have "?n \<le> \<bar>val sg upper - val sg lower\<bar> + 1"
  proof (cases "0 <s incr")
    case True
    have I: "0 < sint incr" using True by (rule pos_incr)
    have le: "val sg lower \<le> val sg upper"
      using legal True by (simp add: legal_def)
    have "(val sg upper - val sg lower) div sint incr \<le> val sg upper - val sg lower"
      using le I zdiv_mono2 [of "val sg upper - val sg lower" 1 "sint incr"] by simp
    then show ?thesis
      using True le by (simp add: trip_of_def)
  next
    case False
    then have neg: "incr <s 0" "0 <s - incr"
      using legal by (simp_all add: legal_def)
    have I: "0 < - sint incr" using neg_incr(1) [OF neg] by simp
    have le: "val sg upper \<le> val sg lower"
      using legal False by (simp add: legal_def)
    have "(val sg lower - val sg upper) div (- sint incr) \<le> val sg lower - val sg upper"
      using le I zdiv_mono2 [of "val sg lower - val sg upper" 1 "- sint incr"] by simp
    then show ?thesis
      using False le by (simp add: trip_of_def)
  qed
  then show ?thesis
    using d h \<open>1 \<le> (2 :: int) ^ (LENGTH('a) - 1)\<close> by linarith
qed

text \<open>
  The trip count of lines 443--449 is the number of iterations when that number is
  below \<open>2\<^sup>w\<close> and either the increment is 1 or -1 or the difference of the bounds is a
  value of the signed type.
\<close>

lemma uint_dist_trip_count_exact:
  fixes incr lower upper :: "'a::len word"
  assumes len: "32 \<le> LENGTH('a)" and legal: "legal sg incr lower upper"
    and rep: "trip_of sg incr lower upper < 2 ^ LENGTH('a)"
    and ex: "incr = 1 \<or> incr = - 1 \<or> cast_exact sg lower upper"
  shows "\<exists>tc. dist_trip_count incr lower upper = Inr tc
            \<and> uint tc = trip_of sg incr lower upper \<and> tc \<noteq> 0"
proof -
  let ?n = "trip_of sg incr lower upper"
  have one: "1 \<le> ?n"
    using trip_of_bounds(1) [OF legal] .
  then have "?n mod 2 ^ LENGTH('a) = ?n"
    using rep by simp
  then have u: "uint (word_of_int ?n :: 'a word) = ?n"
    by (simp only: uint_word_of_int)
  then have "(word_of_int ?n :: 'a word) \<noteq> 0"
    using one by (metis uint_0_iff not_one_le_zero)
  then show ?thesis
    using dist_trip_count_legal [OF len legal ex] u by simp
qed

lemma uint_dist_trip_count:
  fixes incr lower upper :: "'a::len word"
  assumes len: "32 \<le> LENGTH('a)" and legal: "legal sg incr lower upper"
    and fits: "span_fits sg lower upper"
  shows "\<exists>tc. dist_trip_count incr lower upper = Inr tc
            \<and> uint tc = trip_of sg incr lower upper \<and> tc \<noteq> 0"
  using uint_dist_trip_count_exact [OF len legal span_fits_representable [OF legal fits]]
    span_fits_cast [OF fits]
  by blast

lemma misread_int:
  fixes J D S :: int
  assumes J: "2 \<le> J" "J \<le> D" and D: "D < S"
  shows "(1 - (S - D) div J) mod S \<noteq> D div J + 1"
proof
  define a b where "a = (S - D) div J" and "b = D div J"
  assume "(1 - (S - D) div J) mod S = D div J + 1"
  then have e: "(1 - a) mod S = b + 1"
    by (simp add: a_def b_def)
  have J0: "0 < J" using J by simp
  have a0: "0 \<le> a"
    unfolding a_def using D J0 by (simp add: pos_imp_zdiv_nonneg_iff)
  have b1: "1 \<le> b"
    unfolding b_def using J by (simp add: le_div_iff_int [OF J0])
  have aJ: "a * J \<le> S - D" and bJ: "b * J \<le> D"
    unfolding a_def b_def using div_mult_le_int(1) [OF J0] by simp_all
  have m2: "a * 2 \<le> a * J" "b * 2 \<le> b * J"
    using a0 b1 J by (simp_all add: mult_left_mono)
  then have "a * 2 + b * 2 \<le> a * J + b * J"
    by (rule add_mono)
  also have "\<dots> \<le> (S - D) + D"
    using aJ bJ by (rule add_mono)
  finally have ab: "a + a + b + b \<le> S"
    by simp
  have S0: "0 < S" using ab a0 b1 by linarith
  have "b * 2 \<le> D"
    using m2(2) bJ by simp
  then have "(b + 1) mod S = b + 1"
    using b1 D by simp
  then have "(1 - a) mod S = (b + 1) mod S"
    using e by simp
  then have "S dvd (1 - a) - (b + 1)"
    by (simp only: mod_eq_dvd_iff)
  moreover have "(1 - a) - (b + 1) = - (a + b)"
    by simp
  ultimately have "S dvd a + b"
    by (simp only: dvd_minus_iff)
  then have "S \<le> a + b"
    using a0 b1 by (intro zdvd_imp_le) simp_all
  then show False
    using ab S0 by linarith
qed

lemma sdiv_neg_pos: "k < 0 \<Longrightarrow> 0 < l \<Longrightarrow> k sdiv l = - ((- k) div (l :: int))"
  by (simp add: signed_divide_int_def)

lemma sdiv_pos_neg: "0 < k \<Longrightarrow> l < 0 \<Longrightarrow> k sdiv l = - (k div (- l :: int))"
  by (simp add: signed_divide_int_def)

text \<open>
  When the difference of the bounds of a legal loop is not a value of the signed type
  and the increment is neither 1 nor -1, the trip count of lines 443--449 is not the
  number of iterations.
\<close>

lemma dist_trip_count_misread:
  fixes incr lower upper :: "'a::len word"
  assumes len: "32 \<le> LENGTH('a)" and legal: "legal sg incr lower upper"
    and nu: "incr \<noteq> 1" "incr \<noteq> - 1"
    and inexact: "\<not> cast_exact sg lower upper"
  shows "\<exists>tc. dist_trip_count incr lower upper = Inr tc
            \<and> uint tc \<noteq> trip_of sg incr lower upper"
proof -
  define S :: int where "S = 2 ^ LENGTH('a)"
  define H :: int where "H = 2 ^ (LENGTH('a) - 1)"
  have SH: "S = 2 * H"
    unfolding S_def H_def by (metis len_gt_0 power_minus_mult mult.commute)
  have H1: "1 \<le> H" unfolding H_def by simp
  have unsigned: "\<not> sg"
    using legal inexact by (auto simp: legal_def cast_exact_def split: if_splits)
  then have v: "val sg lower = uint lower" "val sg upper = uint upper"
    by (simp_all add: val_def)
  have bnd: "0 \<le> uint lower" "uint lower < S" "0 \<le> uint upper" "uint upper < S"
    unfolding S_def by simp_all
  have sI: "- H \<le> sint incr" "sint incr < H"
    unfolding H_def using sint_range_size [of incr] by (simp_all add: word_size)
  have mn: "val True (i_maxmin_mn True :: 'a word) = - H"
    and mx: "val True (i_maxmin_mx True :: 'a word) = H - 1"
    by (simp_all add: val_mn val_mx H_def)
  have df: "upper - lower = word_of_int (uint upper - uint lower)"
    by (simp only: wi_hom_sub [symmetric] word_of_int_uint)
  show ?thesis
  proof (cases "0 <s incr")
    case True
    have I: "0 < sint incr" using True by (rule pos_incr)
    have "sint incr \<noteq> 1"
    proof
      assume "sint incr = 1"
      then have "word_of_int (sint incr) = (word_of_int 1 :: 'a word)"
        by simp
      then show False using nu(1) by simp
    qed
    then have J: "2 \<le> sint incr" using I by simp
    define D where "D = uint upper - uint lower"
    have "uint lower \<le> uint upper"
      using legal True by (simp add: legal_def v)
    moreover have "\<not> (- H \<le> D \<and> D < H)"
      using inexact by (simp add: cast_exact_def v H_def D_def)
    ultimately have D: "H \<le> D" "D < S"
      using bnd H1 unfolding D_def by linarith+
    have "val True (word_of_int D :: 'a word) = D - S"
      unfolding S_def using D SH
      by (intro val_word_of_int_wrap) (simp_all add: mx S_def)
    then have "sint (word_of_int D :: 'a word) = D - S"
      by (simp add: val_def)
    then have sd: "sint (upper - lower) = D - S"
      unfolding df D_def .
    have q: "sint (upper - lower) sdiv sint incr = - ((S - D) div sint incr)"
      unfolding sd using D I by (simp add: sdiv_neg_pos)
    have "incr \<noteq> 0" using I by auto
    then have "dist_trip_count incr lower upper
                 = Inr (word_of_int (- ((S - D) div sint incr)) + 1)"
      using nu by (simp add: dist_trip_count_def ST_div_def bindF_def q)
    moreover have "(word_of_int (- ((S - D) div sint incr)) + 1 :: 'a word)
                     = word_of_int (- ((S - D) div sint incr) + 1)"
      by (simp only: wi_hom_add [symmetric] word_of_int_1)
    moreover have "- ((S - D) div sint incr) + 1 = 1 - (S - D) div sint incr"
      by simp
    ultimately have tc: "dist_trip_count incr lower upper
                     = Inr (word_of_int (1 - (S - D) div sint incr))"
      by (simp only:)
    have "uint (word_of_int (1 - (S - D) div sint incr) :: 'a word)
            = (1 - (S - D) div sint incr) mod S"
      unfolding S_def by (simp only: uint_word_of_int)
    moreover have "trip_of sg incr lower upper = D div sint incr + 1"
      using True by (simp add: trip_of_def v D_def)
    moreover have "sint incr \<le> D"
      using sI D by linarith
    ultimately show ?thesis
      using tc misread_int [OF J _ D(2)] by simp
  next
    case False
    then have neg: "incr <s 0" "0 <s - incr"
      using legal by (simp_all add: legal_def)
    note ni = neg_incr [OF neg]
    have "sint incr \<noteq> - 1"
    proof
      assume "sint incr = - 1"
      then have "word_of_int (sint incr) = (word_of_int (- 1) :: 'a word)"
        by simp
      then show False using nu(2) by simp
    qed
    then have J: "2 \<le> - sint incr" using ni(1) by simp
    define D where "D = uint lower - uint upper"
    have "uint upper \<le> uint lower"
      using legal False by (simp add: legal_def v)
    moreover have "\<not> (- H \<le> - D \<and> - D < H)"
      using inexact by (simp add: cast_exact_def v H_def D_def)
    ultimately have D: "H < D" "D < S"
      using bnd H1 unfolding D_def by linarith+
    have "val True (word_of_int (- D) :: 'a word) = - D + S"
      unfolding S_def using D SH
      by (intro val_word_of_int_wrap_down) (simp_all add: mn S_def)
    then have "sint (word_of_int (- D) :: 'a word) = S - D"
      by (simp add: val_def)
    moreover have "- D = uint upper - uint lower"
      by (simp add: D_def)
    ultimately have sd: "sint (upper - lower) = S - D"
      unfolding df by simp
    have q: "sint (upper - lower) sdiv sint incr = - ((S - D) div (- sint incr))"
      unfolding sd using D ni(1) by (simp add: sdiv_pos_neg)
    have "dist_trip_count incr lower upper
                 = Inr (word_of_int (- ((S - D) div (- sint incr))) + 1)"
      using nu ni(3) by (simp add: dist_trip_count_def ST_div_def bindF_def q)
    moreover have "(word_of_int (- ((S - D) div (- sint incr))) + 1 :: 'a word)
                     = word_of_int (- ((S - D) div (- sint incr)) + 1)"
      by (simp only: wi_hom_add [symmetric] word_of_int_1)
    moreover have "- ((S - D) div (- sint incr)) + 1 = 1 - (S - D) div (- sint incr)"
      by simp
    ultimately have tc: "dist_trip_count incr lower upper
                     = Inr (word_of_int (1 - (S - D) div (- sint incr)))"
      by (simp only:)
    have "uint (word_of_int (1 - (S - D) div (- sint incr)) :: 'a word)
            = (1 - (S - D) div (- sint incr)) mod S"
      unfolding S_def by (simp only: uint_word_of_int)
    moreover have "trip_of sg incr lower upper = D div (- sint incr) + 1"
      using False by (simp add: trip_of_def v D_def)
    moreover have "- sint incr \<le> D"
      using sI D by linarith
    ultimately show ?thesis
      using tc misread_int [OF J _ D(2)] by simp
  qed
qed

text \<open>
  So the trip count of lines 443--449 is the number of iterations of a legal loop exactly
  when that number is below \<open>2\<^sup>w\<close> and either the increment is 1 or -1 or the difference of
  the bounds is a value of the signed type.
\<close>

lemma dist_trip_count_right_iff:
  fixes incr lower upper :: "'a::len word"
  assumes len: "32 \<le> LENGTH('a)" and legal: "legal sg incr lower upper"
  shows "(\<exists>tc. dist_trip_count incr lower upper = Inr tc
             \<and> uint tc = trip_of sg incr lower upper)
         \<longleftrightarrow> trip_of sg incr lower upper < 2 ^ LENGTH('a)
               \<and> (incr = 1 \<or> incr = - 1 \<or> cast_exact sg lower upper)"
proof
  assume "\<exists>tc. dist_trip_count incr lower upper = Inr tc
             \<and> uint tc = trip_of sg incr lower upper"
  then obtain tc where tc: "dist_trip_count incr lower upper = Inr tc"
    "uint tc = trip_of sg incr lower upper"
    by blast
  have "uint tc < 2 ^ LENGTH('a)"
    by simp
  then have "trip_of sg incr lower upper < 2 ^ LENGTH('a)"
    by (simp only: tc(2))
  moreover have "incr = 1 \<or> incr = - 1 \<or> cast_exact sg lower upper"
  proof (rule ccontr)
    assume "\<not> (incr = 1 \<or> incr = - 1 \<or> cast_exact sg lower upper)"
    then have "incr \<noteq> 1" "incr \<noteq> - 1" "\<not> cast_exact sg lower upper"
      by simp_all
    from dist_trip_count_misread [OF len legal this] tc show False
      by simp
  qed
  ultimately show "trip_of sg incr lower upper < 2 ^ LENGTH('a)
               \<and> (incr = 1 \<or> incr = - 1 \<or> cast_exact sg lower upper)"
    by simp
next
  assume "trip_of sg incr lower upper < 2 ^ LENGTH('a)
               \<and> (incr = 1 \<or> incr = - 1 \<or> cast_exact sg lower upper)"
  then show "\<exists>tc. dist_trip_count incr lower upper = Inr tc
             \<and> uint tc = trip_of sg incr lower upper"
    using uint_dist_trip_count_exact [OF len legal] by blast
qed

subsection \<open>The two levels of \<open>__kmp_dist_for_static_init\<close>\<close>



lemma plastiter_and_last [simp]:
  "plastiter (and_last b s) = map_option (\<lambda>v. if v \<noteq> 0 \<and> \<not> b then 0 else v) (plastiter s)"
  by (simp add: and_last_def)












lemma dist_trip_count_returns:
  "incr \<noteq> 0 \<Longrightarrow> \<exists>tc. dist_trip_count incr lower upper = Inr tc"
  by (simp add: dist_trip_count_def ST_div_def bindF_def)

lemma dist_team_level_tid [simp]:
  "dist_team_level sg (c\<lparr>team_id := team, tid := t\<rparr>) incr tc d
     = dist_team_level sg (c\<lparr>team_id := team\<rparr>) incr tc d"
  by (simp add: dist_team_level_def cong: if_cong)

lemma thread_cond_plastiter [simp]:
  "thread_cond sg c schedule incr chunk (d\<lparr>plastiter := p\<rparr>) tcl
     = thread_cond sg c schedule incr chunk d tcl"
  by (simp add: thread_cond_def)










subsection \<open>Exactly one last iteration\<close>




subsection \<open>The schedules in terms of the number of iterations\<close>

text \<open>
  C1, amended.  For a legal loop with a positive increment (bounds in order and, for a
  signed type, \<open>upper - lower\<close> representable) whose trip count is below \<open>2\<^sup>w\<close>, a team
  of more than one thread that is not serialized, a trip count of at least the number
  of threads, and no thread whose start
  \<open>lower + t * \<lceil>trip_count / nth\<rceil> * incr\<close> exceeds the maximum of the type: every call
  returns; the iterations given to the threads \<open>0 .. nth - 1\<close> by the greedy schedule
  together are exactly those of the loop; no iteration is given twice; and thread \<open>t\<close>
  is given no iteration exactly when \<open>t * \<lceil>trip_count / nth\<rceil> \<ge> trip_count\<close>.  Here
  \<open>trip_count\<close> is the number of iterations of the loop.
\<close>

theorem greedy_partition:
  fixes incr chunk :: "'a::len word"
  assumes len: "32 \<le> LENGTH('a)"
    and pos: "0 <s incr"
    and legal: "legal sg incr (plower s) (pupper s)"
    and par: "\<not> t_serialized c" "1 < nth c"
    and sched: "schedtype = kmp_sch_static \<or> schedtype = kmp_distribute_static"
    and flavor: "kmp_static c = kmp_sch_static_greedy"
    and rep: "trip_of sg incr (plower s) (pupper s) < 2 ^ LENGTH('a)"
    and ge: "uint (nth c) \<le> trip_of sg incr (plower s) (pupper s)"
    and nowrap: "val sg (plower s)
                   + (uint (nth c) - 1)
                     * (ceil_div (trip_of sg incr (plower s) (pupper s)) (uint (nth c)) * sint incr)
                   \<le> val sg (i_maxmin_mx sg :: 'a word)"
  shows "(\<forall>t. t < nth c \<longrightarrow>
            (\<exists>s'. kmp_for_static_init sg (c\<lparr>tid := t\<rparr>) schedtype incr chunk s = Inr s'))
       \<and> (\<Union>t\<in>{t. t < nth c}. assigned sg c schedtype incr chunk s t)
            = iterations sg incr (plower s) (pupper s)
       \<and> (\<forall>t u. t < nth c \<and> u < nth c \<and> t \<noteq> u \<longrightarrow>
            assigned sg c schedtype incr chunk s t \<inter> assigned sg c schedtype incr chunk s u = {})
       \<and> (\<forall>t. t < nth c \<longrightarrow>
            (assigned sg c schedtype incr chunk s t = {}
               \<longleftrightarrow> trip_of sg incr (plower s) (pupper s)
                     \<le> uint t * ceil_div (trip_of sg incr (plower s) (pupper s)) (uint (nth c))))"
proof -
  obtain tc where tc: "for_trip_count sg incr (plower s) (pupper s) = Inr tc"
    "uint tc = trip_of sg incr (plower s) (pupper s)"
    using for_trip_count_representable [OF len legal rep] by blast
  have le: "val sg (plower s) \<le> val sg (pupper s)"
    and fit: "sg \<longrightarrow> val sg (pupper s) - val sg (plower s) < 2 ^ (LENGTH('a) - 1)"
    using legal pos by (simp_all add: legal_def)
  have ge': "\<not> tc < ucast (nth c)"
    using ge tc(2) uint_ucast_kmp_uint32 [OF len, of "nth c"] by (simp add: word_less_alt)
  have nw: "val sg (plower s)
                   + (uint (nth c) - 1) * (ceil_div (uint tc) (uint (nth c)) * sint incr)
                   \<le> val sg (i_maxmin_mx sg :: 'a word)"
    using nowrap by (simp only: tc(2))
  show ?thesis
    by (rule greedy_partition_tc [OF len pos le fit par sched flavor tc(1) ge' nw, of chunk,
          unfolded tc(2)])
qed

theorem greedy_partition_witness:
  "(\<Union>t\<in>{t. t < 3}. assigned True (ctx0\<lparr>nth := 3\<rparr>) kmp_sch_static (1 :: 32 word) 0 (cells0 0 9) t)
      = iterations True (1 :: 32 word) 0 9
   \<and> assigned True (ctx0\<lparr>nth := 3\<rparr>) kmp_sch_static (1 :: 32 word) 0 (cells0 0 9) 0
       \<inter> assigned True (ctx0\<lparr>nth := 3\<rparr>) kmp_sch_static (1 :: 32 word) 0 (cells0 0 9) 1 = {}
   \<and> assigned True (ctx0\<lparr>nth := 3\<rparr>) kmp_sch_static (1 :: 32 word) 0 (cells0 0 9) 2 \<noteq> {}"
proof -
  have "trip_of True (1 :: 32 word) 0 9 = 10"
    by (simp add: trip_of_def val_def word_sless_alt)
  moreover have "legal True (1 :: 32 word) 0 9"
    by (simp add: legal_def val_def word_sless_alt)
  moreover have "ceil_div 10 3 = 4"
    by (simp add: ceil_div_def)
  ultimately show ?thesis
    using greedy_partition [where incr = "1 :: 32 word" and sg = True and s = "cells0 0 9"
        and c = "ctx0\<lparr>nth := 3\<rparr>" and schedtype = kmp_sch_static and chunk = 0]
    by (simp add: ctx0_def cells0_def val_def i_maxmin_mx_def word_sless_alt)
qed

text \<open>
  C3, as stated, fails when the trip count does not fit the unsigned counter.  The
  unsigned loop from 0 to 0xFFFFFFFF with increment 1 has \<open>2\<^sup>3\<^sup>2\<close> iterations, at least the
  two threads of the team; the counter of the routine is 0, the branch for fewer
  iterations than threads is taken, and with the consistency check off both threads are
  told the whole range and neither is flagged, where the balanced formula gives
  [0, 0x7FFFFFFF] to thread 0 and [0x80000000, 0xFFFFFFFF] and the flag to thread 1.
\<close>

theorem balanced_formula_counterexample:
  "legal False (1 :: 32 word) 0 0xFFFFFFFF
   \<and> trip_of False (1 :: 32 word) 0 0xFFFFFFFF = 2 ^ 32
   \<and> kmp_for_static_init False
         (ctx0\<lparr>env_consistency_check := False, kmp_static := kmp_sch_static_balanced,
               tid := 0, nth := 2\<rparr>)
         kmp_sch_static (1 :: 32 word) 0 (cells0 0 0xFFFFFFFF)
       = Inr \<lparr>plastiter = Some 0, plower = 0, pupper = 0xFFFFFFFF, pstride = 0\<rparr>
   \<and> kmp_for_static_init False
         (ctx0\<lparr>env_consistency_check := False, kmp_static := kmp_sch_static_balanced,
               tid := 1, nth := 2\<rparr>)
         kmp_sch_static (1 :: 32 word) 0 (cells0 0 0xFFFFFFFF)
       = Inr \<lparr>plastiter = Some 0, plower = 0, pupper = 0xFFFFFFFF, pstride = 0\<rparr>"
proof -
  have "legal False (1 :: 32 word) 0 0xFFFFFFFF"
    by (simp add: legal_def val_def word_sless_alt)
  moreover have "trip_of False (1 :: 32 word) 0 0xFFFFFFFF = 2 ^ 32"
    by (simp add: trip_of_def val_def word_sless_alt)
  moreover have tc: "for_trip_count False (1 :: 32 word) 0 0xFFFFFFFF = Inr 0"
    by (simp add: for_trip_count_def)
  have
    "kmp_for_static_init False
         (ctx0\<lparr>env_consistency_check := False, kmp_static := kmp_sch_static_balanced,
               tid := 0, nth := 2\<rparr>)
         kmp_sch_static (1 :: 32 word) 0 (cells0 0 0xFFFFFFFF)
       = Inr \<lparr>plastiter = Some 0, plower = 0, pupper = 0xFFFFFFFF, pstride = 0\<rparr>"
    "kmp_for_static_init False
         (ctx0\<lparr>env_consistency_check := False, kmp_static := kmp_sch_static_balanced,
               tid := 1, nth := 2\<rparr>)
         kmp_sch_static (1 :: 32 word) 0 (cells0 0 0xFFFFFFFF)
       = Inr \<lparr>plastiter = Some 0, plower = 0, pupper = 0xFFFFFFFF, pstride = 0\<rparr>"
    by (simp_all add: kmp_for_static_init_def ctx0_def cells0_def zero_trip_def T_less_def
          tc static_fewer_def bindF_def set_last_def word_sless_alt)
  ultimately show ?thesis
    by (simp only: simp_thms)
qed

text \<open>
  C3, amended.  For a legal loop whose trip count is below \<open>2\<^sup>w\<close> and at least the number
  of threads, a team of more than one thread that is not serialized, the static schedule
  and the balanced flavour, with \<open>trip_count\<close> the number of iterations of the loop,
  \<open>small_chunk = trip_count / nth\<close> and \<open>extras = trip_count % nth\<close>: thread \<open>tid < nth\<close>
  gets \<open>lower_i = lower + incr * (tid * small_chunk + min(tid, extras))\<close> and
  \<open>upper_i = lower_i + small_chunk * incr - (tid < extras ? 0 : incr)\<close> as values, without
  wrap-around, and the last-iteration flag \<open>tid = nth - 1\<close>; the stride is not written;
  and the range has \<open>small_chunk + 1\<close> iterations when \<open>tid < extras\<close> and \<open>small_chunk\<close>
  otherwise.  The witness is the worked example: ten iterations and three threads give
  thread 1 the range [4, 6].
\<close>

theorem balanced_formula:
  fixes incr chunk :: "'a::len word"
  assumes len: "32 \<le> LENGTH('a)"
    and legal: "legal sg incr (plower s) (pupper s)"
    and rep: "trip_of sg incr (plower s) (pupper s) < 2 ^ LENGTH('a)"
    and par: "\<not> t_serialized c" "1 < nth c"
    and sched: "schedtype = kmp_sch_static \<or> schedtype = kmp_distribute_static"
    and flavor: "kmp_static c = kmp_sch_static_balanced"
    and ge: "uint (nth c) \<le> trip_of sg incr (plower s) (pupper s)"
    and t: "tid c < nth c"
  shows "let trip_count = trip_of sg incr (plower s) (pupper s);
             small_chunk = trip_count div uint (nth c);
             extras = trip_count mod uint (nth c);
             index = uint (tid c)
         in \<exists>s'. kmp_for_static_init sg c schedtype incr chunk s = Inr s'
              \<and> val sg (plower s')
                   = val sg (plower s) + sint incr * (index * small_chunk + min index extras)
              \<and> val sg (pupper s')
                   = val sg (plower s') + small_chunk * sint incr
                       - (if index < extras then 0 else sint incr)
              \<and> plastiter s' = map_option (\<lambda>_. of_bool (tid c = nth c - 1)) (plastiter s)
              \<and> pstride s' = pstride s
              \<and> card (iterations sg incr (plower s') (pupper s'))
                   = nat small_chunk + (if index < extras then 1 else 0)"
proof -
  obtain tc where tc: "for_trip_count sg incr (plower s) (pupper s) = Inr tc"
    "uint tc = trip_of sg incr (plower s) (pupper s)" "tc \<noteq> 0"
    using for_trip_count_representable [OF len legal rep] by blast
  have n1: "nth c \<noteq> 1" "nth c \<noteq> 0" using par(2) by auto
  have nzw: "(ucast (nth c) :: 'a word) \<noteq> 0"
    using n1(2) len by (simp add: ucast_kmp_uint32_eq_0)
  have ge': "\<not> tc < ucast (nth c)"
    using ge tc(2) uint_ucast_kmp_uint32 [OF len, of "nth c"] by (simp add: word_less_alt)
  have eq: "kmp_for_static_init sg c schedtype incr chunk s
              = static_balanced (tid c) (nth c) incr tc s"
    using for_static_init_static [of incr sg s c schedtype tc chunk]
      legal_nonempty [OF legal] par(1) n1(1) sched tc(1,3) ge' flavor
    by simp
  define q r where "q = uint tc div uint (nth c)" and "r = uint tc mod uint (nth c)"
  define off sz where "off = uint (tid c) * q + min (uint (tid c)) r"
    and "sz = q + (if uint (tid c) < r then 1 else 0)"
  note b = static_balanced_legal [OF len legal tc(2) [symmetric, THEN sym] n1(2) ge' t,
      folded q_def r_def, folded off_def sz_def]
  obtain s' where s': "static_balanced (tid c) (nth c) incr tc s = Inr s'"
    and lo: "val sg (plower s') = val sg (plower s) + off * sint incr"
    and up: "val sg (pupper s') = val sg (plower s) + (off + sz - 1) * sint incr"
    and it: "iterations sg incr (plower s') (pupper s')
                = (\<lambda>j. val sg (plower s) + j * sint incr) ` {off ..< off + sz}"
    using b(1) by blast
  have fl: "plastiter s' = map_option (\<lambda>_. of_bool (tid c = nth c - 1)) (plastiter s)"
    "pstride s' = pstride s"
    using s' static_balanced_eq [OF nzw, of "tid c" incr tc s] by (auto simp: Let_def)
  have "sint incr \<noteq> 0"
    using legal pos_incr(1) [of incr] neg_incr(1) [of incr]
    by (auto simp: legal_def split: if_splits)
  then have "inj (\<lambda>j. val sg (plower s) + j * sint incr)"
    by (auto simp: inj_on_def)
  then have "card (iterations sg incr (plower s') (pupper s')) = card {off ..< off + sz}"
    unfolding it by (intro card_image) (auto simp: inj_on_def)
  also have "\<dots> = nat sz"
    by simp
  also have "\<dots> = nat q + (if uint (tid c) < r then 1 else 0)"
    using b(3) by (simp add: sz_def nat_add_distrib split: if_splits)
  finally have cd: "card (iterations sg incr (plower s') (pupper s'))
                      = nat q + (if uint (tid c) < r then 1 else 0)" .
  have lo': "val sg (plower s')
               = val sg (plower s) + sint incr * (uint (tid c) * q + min (uint (tid c)) r)"
    using lo by (simp add: off_def mult.commute)
  have "(off + sz - 1) * sint incr
          = off * sint incr + q * sint incr - (if uint (tid c) < r then 0 else sint incr)"
    by (simp add: sz_def algebra_simps)
  then have up': "val sg (pupper s')
               = val sg (plower s') + q * sint incr - (if uint (tid c) < r then 0 else sint incr)"
    using up lo by simp
  show ?thesis
    unfolding Let_def eq tc(2) [symmetric] q_def [symmetric] r_def [symmetric]
    using s' lo' up' fl cd by blast
qed

theorem balanced_formula_witness:
  "kmp_for_static_init True (ctx0\<lparr>kmp_static := kmp_sch_static_balanced, tid := 1, nth := 3\<rparr>)
       kmp_sch_static (1 :: 32 word) 0 (cells0 0 9)
     = Inr \<lparr>plastiter = Some 0, plower = 4, pupper = 6, pstride = 0\<rparr>
   \<and> (\<exists>s'. kmp_for_static_init True
               (ctx0\<lparr>kmp_static := kmp_sch_static_balanced, tid := 1, nth := 3\<rparr>)
               kmp_sch_static (1 :: 32 word) 0 (cells0 0 9) = Inr s'
          \<and> val True (plower s') = 0 + 1 * (1 * 3 + min 1 1)
          \<and> val True (pupper s') = val True (plower s') + 3 * 1 - 1
          \<and> plastiter s' = Some 0 \<and> pstride s' = 0
          \<and> card (iterations True (1 :: 32 word) (plower s') (pupper s')) = 3)"
proof -
  let ?c = "ctx0\<lparr>kmp_static := kmp_sch_static_balanced, tid := 1, nth := 3\<rparr>"
  have l: "legal True (1 :: 32 word) (plower (cells0 0 9)) (pupper (cells0 0 9))"
    by (simp add: legal_def val_def word_sless_alt cells0_def)
  have tr: "trip_of True (1 :: 32 word) (plower (cells0 0 9)) (pupper (cells0 0 9)) = 10"
    by (simp add: trip_of_def val_def word_sless_alt cells0_def)
  have ev: "kmp_for_static_init True ?c kmp_sch_static (1 :: 32 word) 0 (cells0 0 9)
              = Inr \<lparr>plastiter = Some 0, plower = 4, pupper = 6, pstride = 0\<rparr>"
    by (simp add: kmp_for_static_init_def ctx0_def cells0_def zero_trip_def T_less_def T_div_def
          ST_div_def for_trip_count_def static_balanced_def bindF_def UT_div_def UT_mod_def
          set_last_def Let_def word_sless_alt)
  have "\<exists>s'. kmp_for_static_init True ?c kmp_sch_static (1 :: 32 word) 0 (cells0 0 9) = Inr s'
          \<and> val True (plower s') = 0 + 1 * (1 * 3 + min 1 1)
          \<and> val True (pupper s') = val True (plower s') + 3 * 1 - 1
          \<and> plastiter s' = Some 0 \<and> pstride s' = 0
          \<and> card (iterations True (1 :: 32 word) (plower s') (pupper s')) = 3"
    using balanced_formula [where incr = "1 :: 32 word" and sg = True and s = "cells0 0 9"
        and c = ?c and schedtype = kmp_sch_static and chunk = 0, unfolded tr] l
    by (simp add: ctx0_def cells0_def val_def Let_def)
  then show ?thesis
    using ev by simp
qed

text \<open>
  C4.  For a legal loop, a team of more than one thread that is not serialized and the
  chunked schedule, when the consistency check is off or the trip count is below \<open>2\<^sup>w\<close>:
  with \<open>chunk' = max(chunk, 1)\<close>, \<open>span = chunk' * incr\<close> and \<open>trip_count\<close> the number of
  iterations of the loop, thread \<open>tid\<close> of \<open>nth\<close> gets the stride \<open>span * nth\<close>, the lower
  bound \<open>lower + span * tid\<close>, the upper bound \<open>lower_i + span - incr\<close> (in the arithmetic
  of the type), and the last-iteration flag \<open>tid = ((trip_count - 1) / chunk') % nth\<close>.
  The instance of the witness is the worked example: bounds 0 and 19, increment 1,
  chunk 2 and four threads give [0,1], [2,3], [4,5], [6,7], stride 8, and the flag for
  thread 1 only.
\<close>

theorem chunked_formula:
  fixes incr chunk :: "'a::len word"
  assumes len: "32 \<le> LENGTH('a)"
    and legal: "legal sg incr (plower s) (pupper s)"
    and par: "\<not> t_serialized c" "1 < nth c"
    and sched: "schedtype = kmp_sch_static_chunked \<or> schedtype = kmp_distribute_static_chunked"
    and chk: "env_consistency_check c
                \<longrightarrow> trip_of sg incr (plower s) (pupper s) < 2 ^ LENGTH('a)"
  shows "kmp_for_static_init sg c schedtype incr chunk s =
           (let chunk' = (if chunk <s 1 then 1 else chunk);
                span = chunk' * incr;
                lower_i = plower s + span * ucast (tid c)
            in Inr \<lparr>plastiter = map_option (\<lambda>_. of_bool
                        (uint (tid c)
                           = ((trip_of sg incr (plower s) (pupper s) - 1) div uint chunk')
                               mod uint (nth c)))
                        (plastiter s),
                     plower = lower_i,
                     pupper = lower_i + span - incr,
                     pstride = span * ucast (nth c)\<rparr>)"
proof -
  define TC where "TC = trip_of sg incr (plower s) (pupper s)"
  define tc :: "'a word" where "tc = word_of_int TC"
  define chunk' where "chunk' = (if chunk <s 1 then 1 else chunk)"
  have tc: "for_trip_count sg incr (plower s) (pupper s) = Inr tc"
    unfolding tc_def TC_def by (rule for_trip_count_legal [OF len legal])
  have nz: "tc \<noteq> 0" if "TC < 2 ^ LENGTH('a)"
    using for_trip_count_representable [OF len legal that [unfolded TC_def]] tc by simp
  have chk': "\<not> (env_consistency_check c \<and> tc = 0 \<and> pupper s \<noteq> plower s)"
    using chk nz by (auto simp: TC_def)
  note b = trip_of_bounds [OF legal, folded TC_def]
  have "tc - 1 = word_of_int (TC - 1)"
    unfolding tc_def by (simp only: wi_hom_syms word_of_int_1)
  moreover have "(TC - 1) mod 2 ^ LENGTH('a) = TC - 1"
    using b by simp
  ultimately have u1: "uint (tc - 1) = TC - 1"
    by (simp only: uint_word_of_int)
  have un: "uint (ucast (nth c) :: 'a word) = uint (nth c)"
    "uint (ucast (tid c) :: 'a word) = uint (tid c)"
    by (rule uint_ucast_kmp_uint32 [OF len])+
  have "uint (((tc - 1) div chunk') mod ucast (nth c))
          = ((TC - 1) div uint chunk') mod uint (nth c)"
    by (simp only: uint_mod uint_div u1 un)
  then have fl: "(ucast (tid c) :: 'a word) = ((tc - 1) div chunk') mod ucast (nth c)
          \<longleftrightarrow> uint (tid c) = ((TC - 1) div uint chunk') mod uint (nth c)"
    using un(2) by (metis word_uint_eq_iff)
  show ?thesis
    using for_static_init_chunked [OF len legal_nonempty [OF legal] par sched tc chk', of chunk]
    by (simp only: Let_def chunk'_def [symmetric] fl TC_def [symmetric])
qed

theorem chunked_formula_witness:
  "trip_of True 1 0 (19 :: 32 word) = 20
   \<and> kmp_for_static_init True (ctx0\<lparr>tid := 0, nth := 4\<rparr>) kmp_sch_static_chunked
        (1 :: 32 word) 2 (cells0 0 19)
      = Inr \<lparr>plastiter = Some 0, plower = 0, pupper = 1, pstride = 8\<rparr>
   \<and> kmp_for_static_init True (ctx0\<lparr>tid := 1, nth := 4\<rparr>) kmp_sch_static_chunked
        (1 :: 32 word) 2 (cells0 0 19)
      = Inr \<lparr>plastiter = Some 1, plower = 2, pupper = 3, pstride = 8\<rparr>
   \<and> kmp_for_static_init True (ctx0\<lparr>tid := 2, nth := 4\<rparr>) kmp_sch_static_chunked
        (1 :: 32 word) 2 (cells0 0 19)
      = Inr \<lparr>plastiter = Some 0, plower = 4, pupper = 5, pstride = 8\<rparr>
   \<and> kmp_for_static_init True (ctx0\<lparr>tid := 3, nth := 4\<rparr>) kmp_sch_static_chunked
        (1 :: 32 word) 2 (cells0 0 19)
      = Inr \<lparr>plastiter = Some 0, plower = 6, pupper = 7, pstride = 8\<rparr>"
proof -
  have tr: "trip_of True 1 (plower (cells0 0 19)) (pupper (cells0 0 (19 :: 32 word))) = 20"
    by (simp add: trip_of_def val_def word_sless_alt cells0_def)
  have l: "legal True 1 (plower (cells0 0 19)) (pupper (cells0 0 (19 :: 32 word)))"
    by (simp add: legal_def val_def word_sless_alt cells0_def)
  have "trip_of True 1 0 (19 :: 32 word) = 20"
    by (simp add: trip_of_def val_def word_sless_alt)
  then show ?thesis
    using chunked_formula [where incr = "1 :: 32 word" and sg = True and s = "cells0 0 19"
            and c = "ctx0\<lparr>tid := 0, nth := 4\<rparr>" and schedtype = kmp_sch_static_chunked
            and chunk = 2, unfolded tr, OF _ l]
          chunked_formula [where incr = "1 :: 32 word" and sg = True and s = "cells0 0 19"
            and c = "ctx0\<lparr>tid := 1, nth := 4\<rparr>" and schedtype = kmp_sch_static_chunked
            and chunk = 2, unfolded tr, OF _ l]
          chunked_formula [where incr = "1 :: 32 word" and sg = True and s = "cells0 0 19"
            and c = "ctx0\<lparr>tid := 2, nth := 4\<rparr>" and schedtype = kmp_sch_static_chunked
            and chunk = 2, unfolded tr, OF _ l]
          chunked_formula [where incr = "1 :: 32 word" and sg = True and s = "cells0 0 19"
            and c = "ctx0\<lparr>tid := 3, nth := 4\<rparr>" and schedtype = kmp_sch_static_chunked
            and chunk = 2, unfolded tr, OF _ l]
    by (simp add: ctx0_def cells0_def word_sless_alt Let_def)
qed

subsection \<open>\<open>__kmp_team_static_init\<close> and the last iteration\<close>

text \<open>
  When no consistency report is made, the routine returns the first chunk of the team,
  clamped to the sentinel and to the upper bound of the loop, the stride
  \<open>chunk * incr * nteams\<close>, and the flag \<open>team_id = ((trip_count - 1) / chunk) % nteams\<close> for
  the trip count of lines 680--686.
\<close>

lemma team_static_init_formula:
  fixes incr chunk :: "'a::len word"
  assumes len: "32 \<le> LENGTH('a)"
    and incr: "incr \<noteq> 0" and nt: "nteams c \<noteq> 0"
    and ok: "\<not> (env_consistency_check c \<and> zero_trip sg incr (plower s) (pupper s))"
  defines "chunk' \<equiv> (if chunk <s 1 then 1 else chunk)"
  defines "lb \<equiv> plower s + chunk' * incr * ucast (team_id c)"
  defines "ub \<equiv> lb + chunk' * incr - incr"
  shows "\<exists>trip_count. dist_trip_count incr (plower s) (pupper s) = Inr trip_count
           \<and> kmp_team_static_init sg c incr chunk s =
               Inr \<lparr>plastiter = map_option (\<lambda>_. of_bool
                        (ucast (team_id c) = ((trip_count - 1) div chunk') mod ucast (nteams c)))
                        (plastiter s),
                    plower = lb,
                    pupper =
                      (if 0 <s incr
                       then (let ub1 = (if T_less sg ub lb then i_maxmin_mx sg else ub)
                             in if T_less sg (pupper s) ub1 then pupper s else ub1)
                       else (let ub1 = (if T_less sg lb ub then i_maxmin_mn sg else ub)
                             in if T_less sg ub1 (pupper s) then pupper s else ub1)),
                    pstride = chunk' * incr * ucast (nteams c)\<rparr>"
proof -
  obtain tc where tc: "dist_trip_count incr (plower s) (pupper s) = Inr tc"
    using dist_trip_count_returns [OF incr] by blast
  have nzw: "(ucast (nteams c) :: 'a word) \<noteq> 0"
    using nt len by (simp add: ucast_kmp_uint32_eq_0)
  have ch: "chunk' \<noteq> 0"
    unfolding chunk'_def by (rule chunk_clamp_neq_0 [OF len])
  show ?thesis
  proof (cases "0 <s incr")
    case True
    then show ?thesis
      using tc nzw ch incr ok
      by (simp add: kmp_team_static_init_def bindF_def UT_div_def UT_mod_def Let_def set_last_def
            chunk'_def [symmetric] lb_def ub_def)
  next
    case False
    then show ?thesis
      using tc nzw ch incr ok
      by (simp add: kmp_team_static_init_def bindF_def UT_div_def UT_mod_def Let_def set_last_def
            chunk'_def [symmetric] lb_def ub_def)
  qed
qed

text \<open>
  C8: the trip count of lines 680--686 is not the number of iterations.  For the
  unsigned loop from 0 to 0x80000000 with increment 2 the difference of the bounds is
  read as a negative number, the trip count comes out as 0xC0000001 instead of
  0x40000001, and of three teams with chunk 1 it is team 0 that is flagged, although
  the last iteration (number \<open>2\<^sup>3\<^sup>0\<close>, and \<open>2\<^sup>3\<^sup>0 mod 3 = 1\<close>) is in a chunk of team 1, which
  is what the chunked schedule of \<open>__kmp_for_static_init\<close> answers for thread 1 of 3.
\<close>

theorem team_static_init_wrong_last:
  "legal False (2 :: 32 word) 0 0x80000000
   \<and> trip_of False (2 :: 32 word) 0 0x80000000 = 1073741825
   \<and> for_trip_count False (2 :: 32 word) 0 0x80000000 = Inr 1073741825
   \<and> dist_trip_count (2 :: 32 word) 0 0x80000000 = Inr 3221225473
   \<and> ((1073741825 - 1) div 1) mod 3 = (1 :: int)
   \<and> kmp_team_static_init False (ctx0\<lparr>team_id := 0, nteams := 3\<rparr>) (2 :: 32 word) 1
         (cells0 0 0x80000000)
       = Inr \<lparr>plastiter = Some 1, plower = 0, pupper = 0, pstride = 6\<rparr>
   \<and> kmp_team_static_init False (ctx0\<lparr>team_id := 1, nteams := 3\<rparr>) (2 :: 32 word) 1
         (cells0 0 0x80000000)
       = Inr \<lparr>plastiter = Some 0, plower = 2, pupper = 2, pstride = 6\<rparr>
   \<and> kmp_for_static_init False (ctx0\<lparr>tid := 1, nth := 3\<rparr>) kmp_sch_static_chunked
         (2 :: 32 word) 1 (cells0 0 0x80000000)
       = Inr \<lparr>plastiter = Some 1, plower = 2, pupper = 2, pstride = 6\<rparr>"
  by (simp add: legal_def trip_of_def val_def for_trip_count_def dist_trip_count_def
        kmp_team_static_init_def kmp_for_static_init_def static_chunked_def ctx0_def cells0_def
        zero_trip_def T_less_def T_le_def T_div_def ST_div_def UT_div_def UT_mod_def bindF_def
        set_last_def Let_def word_sless_alt signed_divide_int_def i_maxmin_mx_def)

end
